theory Spec2Isabelle
  imports Complex_Main "HOL-Library.Word"
begin

unbundle bit_operations_syntax

section \<open>JavaScript values\<close>

text \<open>
  Numbers are modelled as exact reals: rounding to double precision is left out.
  Rounding to single precision, which happens when a number is stored in a
  \<^verbatim>\<open>Float32Array\<close>, is modelled (see \<open>fround\<close> below). The integer
  operators \<^verbatim>\<open>&\<close>, \<^verbatim>\<open>~\<close> and \<^verbatim>\<open><<\<close> work on 32-bit two's complement values, as
  in the language: each operand is first reduced by \<open>ToInt32\<close>, and the result is read
  back as a signed number. The shift count of \<^verbatim>\<open><<\<close> is taken modulo 32.
\<close>

definition ToInt32 :: "int \<Rightarrow> 32 word" where
  "ToInt32 x = word_of_int x"

definition js_and :: "int \<Rightarrow> int \<Rightarrow> int" where
  "js_and a b = sint (ToInt32 a AND ToInt32 b)"

definition js_not :: "int \<Rightarrow> int" where
  "js_not a = sint (NOT (ToInt32 a))"

definition js_shl :: "int \<Rightarrow> nat \<Rightarrow> int" where
  "js_shl a n = sint (push_bit (n mod 32) (ToInt32 a))"

text \<open>
  What leaves the model of the state: an exception, or a state that holds a value that
  is not a finite number (a \<^verbatim>\<open>NaN\<close> from arithmetic on \<^verbatim>\<open>undefined\<close> or from a division
  of zero by zero, or an infinity made by the conversion to single precision). Such a
  value never leaves the accumulators once it has entered them, so the model stops
  there.
\<close>

datatype js_error = RangeError | TypeError | NotANumber

text \<open>
  Where a special value can be observed it is kept: \<open>jsnum\<close> is a finite number, an
  infinity or \<^verbatim>\<open>NaN\<close>. It is the type of the level, which is only published, and of
  the elements of a \<^verbatim>\<open>Float32Array\<close>. Division and square root follow IEEE 754 on
  these (the sign of a zero is not tracked: a zero is \<open>+0\<close>, as the square root of a
  zero quotient is here).
\<close>

datatype jsnum = Fin real | PosInf | NegInf | NaN

fun js_div :: "jsnum \<Rightarrow> jsnum \<Rightarrow> jsnum" where
  "js_div (Fin a) (Fin b) =
     (if b = 0 then (if a = 0 then NaN else if 0 < a then PosInf else NegInf)
      else Fin (a / b))"
| "js_div (Fin a) PosInf = Fin 0"
| "js_div (Fin a) NegInf = Fin 0"
| "js_div PosInf (Fin b) = (if 0 \<le> b then PosInf else NegInf)"
| "js_div NegInf (Fin b) = (if 0 \<le> b then NegInf else PosInf)"
| "js_div _ _ = NaN"

fun js_sqrt :: "jsnum \<Rightarrow> jsnum" where
  "js_sqrt (Fin a) = (if a < 0 then NaN else Fin (sqrt a))"
| "js_sqrt PosInf = PosInf"
| "js_sqrt _ = NaN"

text \<open>
  \<^verbatim>\<open>Math.fround\<close>, the conversion of a number to single precision (IEEE 754 binary32,
  round to nearest, ties to even), which a \<^verbatim>\<open>Float32Array\<close> applies to every number
  stored in it. A number in the binade of exponent \<open>e\<close> is rounded to a multiple of
  \<open>2 ^ (e - 23)\<close>; below \<open>2 ^ - 126\<close> the step is \<open>2 ^ - 149\<close>; a result of \<open>2 ^ 128\<close> or
  more is an infinity.
\<close>

definition round_ties_even :: "real \<Rightarrow> int" where
  "round_ties_even y =
     (let f = \<lfloor>y\<rfloor>; d = y - of_int f
      in if d < 1 / 2 then f else if 1 / 2 < d then f + 1 else if even f then f else f + 1)"

definition fround :: "real \<Rightarrow> jsnum" where
  "fround x =
     (if x = 0 then Fin 0
      else let e = max (- 126) \<lfloor>log 2 \<bar>x\<bar>\<rfloor>;
               q = 2 powi (e - 23);
               r = q * of_int (round_ties_even (x / q))
           in if 2 ^ 128 \<le> r then PosInf else if r \<le> - (2 ^ 128) then NegInf else Fin r)"

text \<open>
  Every function below that stores a number in a \<^verbatim>\<open>Float32Array\<close> takes the conversion
  as its first argument \<open>store\<close>. The code is the instance \<open>fround\<close>. The instance \<open>Fin\<close>
  stores the number as it is: that is exact arithmetic, with no rounding anywhere.

  A typed array has a fixed length: a write outside it is ignored, a read outside it
  gives \<^verbatim>\<open>undefined\<close> (here \<open>None\<close>).
\<close>

definition array_set :: "'a list \<Rightarrow> int \<Rightarrow> 'a \<Rightarrow> 'a list" where
  "array_set a i v = (if 0 \<le> i \<and> i < int (length a) then a[nat i := v] else a)"

definition array_get :: "'a list \<Rightarrow> int \<Rightarrow> 'a option" where
  "array_get a i = (if 0 \<le> i \<and> i < int (length a) then Some (a ! nat i) else None)"

section \<open>sdft.js: class Complex\<close>

text \<open>A \<^verbatim>\<open>Complex\<close> object is a pair of fields \<open>re\<close> and \<open>im\<close>: the type \<open>complex\<close>.\<close>

definition Complex_add :: "complex \<Rightarrow> complex \<Rightarrow> complex" where
  "Complex_add this z = Complex (Re this + Re z) (Im this + Im z)"

definition Complex_sub :: "complex \<Rightarrow> complex \<Rightarrow> complex" where
  "Complex_sub this z = Complex (Re this - Re z) (Im this - Im z)"

definition Complex_mul :: "complex \<Rightarrow> complex \<Rightarrow> complex" where
  "Complex_mul this z =
     Complex (Re this * Re z - Im this * Im z) (Re this * Im z + Im this * Re z)"

definition Complex_exp :: "complex \<Rightarrow> complex" where
  "Complex_exp this = (let tmp = exp (Re this) in
     Complex (tmp * cos (Im this)) (tmp * sin (Im this)))"

definition magnitude :: "complex \<Rightarrow> real" where
  "magnitude this = sqrt (Re this * Re this + Im this * Im this)"

section \<open>sdft.js: class RingBuffer\<close>

text \<open>
  The fields of the object; \<open>buffer\<close> is a \<^verbatim>\<open>Float32Array\<close>. The cursor \<open>index\<close> counts
  the writes; as a number it is exact below \<open>2 ^ 53\<close>, and it is an unbounded integer
  here.
\<close>

record RingBuffer =
  mask_rb :: int
  buffer :: "jsnum list"
  index :: int

text \<open>
  The constructor: \<^verbatim>\<open>size = 1 << bits\<close>, a buffer of \<open>size\<close> zeros. For \<open>bits = 31\<close> the
  shift gives a negative size, and \<^verbatim>\<open>new Float32Array(size)\<close> throws.
\<close>

definition RingBuffer_new :: "nat \<Rightarrow> js_error + RingBuffer" where
  "RingBuffer_new bits =
     (let size = js_shl 1 bits in
      if size < 0 then Inl RangeError
      else Inr \<lparr>mask_rb = size - 1, buffer = replicate (nat size) (Fin 0), index = 0\<rparr>)"

text \<open>
  \<^verbatim>\<open>this.buffer[(this.index++) & this.mask] = value\<close>: the element stored is the
  conversion of \<open>value\<close>.
\<close>

definition RingBuffer_write :: "(real \<Rightarrow> jsnum) \<Rightarrow> RingBuffer \<Rightarrow> real \<Rightarrow> RingBuffer" where
  "RingBuffer_write store this v =
     this\<lparr>buffer := array_set (buffer this) (js_and (index this) (mask_rb this)) (store v),
          index := index this + 1\<rparr>"

text \<open>\<^verbatim>\<open>return this.buffer[(this.index + (~index)) & this.mask]\<close>; no field is assigned.\<close>

definition RingBuffer_read :: "RingBuffer \<Rightarrow> int \<Rightarrow> jsnum option" where
  "RingBuffer_read this i = array_get (buffer this) (js_and (index this + js_not i) (mask_rb this))"

text \<open>A client of the buffer: any sequence of calls of its two methods.\<close>

datatype rb_call = Write real | Read int

fun call :: "(real \<Rightarrow> jsnum) \<Rightarrow> RingBuffer \<Rightarrow> rb_call \<Rightarrow> RingBuffer" where
  "call store rb (Write v) = RingBuffer_write store rb v"
| "call store rb (Read i) = rb"

fun written :: "rb_call list \<Rightarrow> real list" where
  "written [] = []"
| "written (Write v # cs) = v # written cs"
| "written (Read i # cs) = written cs"

section \<open>sdft.js: class SlidingDFT\<close>

record SlidingDFT =
  updateIntervalInMS :: real
  nextUpdateFrame :: real
  ringBuffer :: RingBuffer
  sdft_k :: real
  sdft_N :: nat
  coeff :: complex
  dft :: complex
  totalPower :: real

text \<open>
  The constructor reads the global \<^verbatim>\<open>sampleRate\<close> of the audio worklet, a positive
  whole number of samples per second; it is a parameter here. Nothing is checked.
\<close>

definition SlidingDFT_new :: "nat \<Rightarrow> js_error + SlidingDFT" where
  "SlidingDFT_new sampleRate =
     (case RingBuffer_new 16 of
        Inl e \<Rightarrow> Inl e
      | Inr rb \<Rightarrow>
          Inr \<lparr>updateIntervalInMS = 1000 / 30,
               nextUpdateFrame = 1000 / 30,
               ringBuffer = rb,
               sdft_k = 440,
               sdft_N = sampleRate,
               coeff = Complex_exp (Complex 0 (2 * pi * (440 / real sampleRate))),
               dft = Complex 0 0,
               totalPower = 0\<rparr>)"

definition intervalInFrames :: "SlidingDFT \<Rightarrow> real" where
  "intervalInFrames this = updateIntervalInMS this / 1000 * real (sdft_N this)"

text \<open>
  The body of the loop over the block (lines 108 to 118), for one normalized sample:
  the sample is written, the element \<open>N\<close> steps back is read, and the accumulated
  value and the window power are updated. A read outside the buffer would give
  \<^verbatim>\<open>undefined\<close>, and an element that is not finite an infinity: either way the
  accumulators are no longer numbers.
\<close>

definition process_sample ::
  "(real \<Rightarrow> jsnum) \<Rightarrow> SlidingDFT \<Rightarrow> real \<Rightarrow> js_error + SlidingDFT" where
  "process_sample store this currentSample =
     (let rb = RingBuffer_write store (ringBuffer this) currentSample in
      case RingBuffer_read rb (int (sdft_N this)) of
        Some (Fin previousSample) \<Rightarrow>
          Inr (this\<lparr>ringBuffer := rb,
                    dft := Complex_mul
                             (Complex_add
                                (Complex_sub (dft this) (Complex previousSample 0))
                                (Complex currentSample 0))
                             (coeff this),
                    totalPower := totalPower this - previousSample * previousSample
                                    + currentSample * currentSample\<rparr>)
      | _ \<Rightarrow> Inl NotANumber)"

fun process_loop ::
  "(real \<Rightarrow> jsnum) \<Rightarrow> SlidingDFT \<Rightarrow> real list \<Rightarrow> js_error + SlidingDFT" where
  "process_loop store this [] = Inr this"
| "process_loop store this (x # xs) =
     (case process_sample store this x of
        Inl e \<Rightarrow> Inl e
      | Inr this' \<Rightarrow> process_loop store this' xs)"

text \<open>
  The engine constructed for \<open>sampleRate\<close> and fed the normalized samples \<open>xs\<close>, one
  pass of the loop for each, in order.
\<close>

definition feed :: "(real \<Rightarrow> jsnum) \<Rightarrow> nat \<Rightarrow> real list \<Rightarrow> js_error + SlidingDFT" where
  "feed store sampleRate xs =
     (case SlidingDFT_new sampleRate of
        Inl e \<Rightarrow> Inl e
      | Inr this \<Rightarrow> process_loop store this xs)"

text \<open>
  The mix-down (lines 89 to 103). \<open>samples\<close> is a \<^verbatim>\<open>Float32Array\<close> of 128 entries
  whatever the input holds: \<^verbatim>\<open>samples[sampleIndex] += sample\<close> stores the conversion
  of the sum, and beyond the array it is an ignored write; \<open>count\<close> counts every
  sample all the same. An infinity stored in \<open>samples\<close> reaches the accumulators, so the
  model stops there. The copy of the input to \<^verbatim>\<open>output\<close> touches no field of the engine
  and is left out.
\<close>

definition mix_sample ::
  "(real \<Rightarrow> jsnum) \<Rightarrow> real list \<Rightarrow> nat \<Rightarrow> js_error + real list \<times> nat \<Rightarrow>
   js_error + real list \<times> nat" where
  "mix_sample store channel sampleIndex acc =
     (case acc of
        Inl e \<Rightarrow> Inl e
      | Inr (samples, count) \<Rightarrow>
          if sampleIndex < length samples
          then (case store (samples ! sampleIndex + channel ! sampleIndex) of
                  Fin s \<Rightarrow> Inr (samples[sampleIndex := s], count + 1)
                | _ \<Rightarrow> Inl NotANumber)
          else Inr (samples, count + 1))"

definition mix_channel ::
  "(real \<Rightarrow> jsnum) \<Rightarrow> real list \<Rightarrow> js_error + real list \<times> nat \<Rightarrow>
   js_error + real list \<times> nat" where
  "mix_channel store channel = fold (mix_sample store channel) [0..<length channel]"

definition mixdown ::
  "(real \<Rightarrow> jsnum) \<Rightarrow> nat \<Rightarrow> real list list list \<Rightarrow> js_error + real list \<times> nat" where
  "mixdown store windowSize input =
     fold (\<lambda>port. fold (mix_channel store) port) input (Inr (replicate windowSize 0, 0))"

definition level :: "SlidingDFT \<Rightarrow> jsnum" where
  "level this =
     js_div (Fin (magnitude (dft this)))
       (js_sqrt (js_div (Fin (totalPower this)) (Fin (real (sdft_N this)))))"

text \<open>
  The end of \<^verbatim>\<open>process\<close> (lines 121 to 130): the level is computed, and posted to the
  port when the frame counter has run out. The result is the new state, the message
  posted (if any) and the value returned, which is always \<^verbatim>\<open>true\<close>.
\<close>

definition publish :: "nat \<Rightarrow> SlidingDFT \<Rightarrow> SlidingDFT \<times> jsnum option \<times> bool" where
  "publish windowSize this =
     (let lvl = level this;
          this1 = this\<lparr>nextUpdateFrame := nextUpdateFrame this - real windowSize\<rparr>
      in if nextUpdateFrame this1 < 0
         then (this1\<lparr>nextUpdateFrame := nextUpdateFrame this1 + intervalInFrames this1\<rparr>,
               Some lvl, True)
         else (this1, None, True))"

text \<open>
  \<^verbatim>\<open>process\<close>: with no sample at all in the input, \<open>n\<close> is zero and every
  \<^verbatim>\<open>samples[i] / n\<close> is \<^verbatim>\<open>0 / 0\<close>, which is written to the buffer and the accumulators.
\<close>

definition SlidingDFT_process ::
  "(real \<Rightarrow> jsnum) \<Rightarrow> SlidingDFT \<Rightarrow> real list list list \<Rightarrow>
   js_error + (SlidingDFT \<times> jsnum option \<times> bool)" where
  "SlidingDFT_process store this input =
     (let windowSize = 128 in
      case mixdown store windowSize input of
        Inl e \<Rightarrow> Inl e
      | Inr (samples, count) \<Rightarrow>
          let n = real count / real windowSize
          in if n = 0 then Inl NotANumber
             else (case process_loop store this (map (\<lambda>s. s / n) samples) of
                     Inl e \<Rightarrow> Inl e
                   | Inr this' \<Rightarrow> Inr (publish windowSize this')))"

text \<open>The audio host: it constructs the processor, then hands it block after block.\<close>

fun process_all ::
  "(real \<Rightarrow> jsnum) \<Rightarrow> SlidingDFT \<Rightarrow> real list list list list \<Rightarrow>
   js_error + (SlidingDFT \<times> jsnum option list)" where
  "process_all store this [] = Inr (this, [])"
| "process_all store this (input # inputs) =
     (case SlidingDFT_process store this input of
        Inl e \<Rightarrow> Inl e
      | Inr (this', msg, _) \<Rightarrow>
          (case process_all store this' inputs of
             Inl e \<Rightarrow> Inl e
           | Inr (this'', msgs) \<Rightarrow> Inr (this'', msg # msgs)))"

definition run ::
  "(real \<Rightarrow> jsnum) \<Rightarrow> nat \<Rightarrow> real list list list list \<Rightarrow>
   js_error + (SlidingDFT \<times> jsnum option list)" where
  "run store sampleRate inputs =
     (case SlidingDFT_new sampleRate of
        Inl e \<Rightarrow> Inl e
      | Inr this \<Rightarrow> process_all store this inputs)"

section \<open>pianolizer.js: class PianolizerNode\<close>

text \<open>
  The wrapper of the filter bank. The bank itself (the class \<^verbatim>\<open>SlidingDFT\<close> with a
  tuning and a smoothing factor) is not in this file: its state is the type \<open>'s\<close>, its
  levels the type \<open>'l\<close>, and its \<open>process\<close> a parameter, which gets the array of
  samples and may change it (the wrapper keeps the same array from call to call).
\<close>

record 's PianolizerNode =
  samples_node :: "real list option"
  updateInterval :: real
  nextUpdateFrame_node :: real
  slidingDFT :: 's

definition PianolizerNode_new :: "'s \<Rightarrow> 's PianolizerNode" where
  "PianolizerNode_new bank =
     \<lparr>samples_node = None, updateInterval = 1.0 / 60, nextUpdateFrame_node = 0,
      slidingDFT = bank\<rparr>"

text \<open>
  The mix-down of the wrapper runs over \<open>windowSize\<close> indices of every channel; a
  channel shorter than that gives \<^verbatim>\<open>undefined\<close>, and \<^verbatim>\<open>NaN\<close> in the array. The array
  is a \<^verbatim>\<open>Float32Array\<close>: the sum is converted when it is stored, and so is the quotient
  in \<^verbatim>\<open>this.samples[i] /= n\<close>.
\<close>

definition mix_channel_node ::
  "(real \<Rightarrow> jsnum) \<Rightarrow> nat \<Rightarrow> real list \<Rightarrow> real list \<times> nat \<Rightarrow> (real list \<times> nat) option" where
  "mix_channel_node store windowSize channel acc =
     fold (\<lambda>sampleIndex r.
             case r of
               None \<Rightarrow> None
             | Some (samples, count) \<Rightarrow>
                 (case array_get channel (int sampleIndex) of
                    None \<Rightarrow> None
                  | Some sample \<Rightarrow>
                      (case store (samples ! sampleIndex + sample) of
                         Fin s \<Rightarrow> Some (samples[sampleIndex := s], count + 1)
                       | _ \<Rightarrow> None)))
       [0..<windowSize] (Some acc)"

definition mixdown_node ::
  "(real \<Rightarrow> jsnum) \<Rightarrow> nat \<Rightarrow> real list list list \<Rightarrow> real list \<times> nat \<Rightarrow>
   (real list \<times> nat) option" where
  "mixdown_node store windowSize input acc =
     fold (\<lambda>port. fold (\<lambda>channel r.
             case r of
               None \<Rightarrow> None
             | Some a \<Rightarrow> mix_channel_node store windowSize channel a) port)
       input (Some acc)"

definition normalize_node :: "(real \<Rightarrow> jsnum) \<Rightarrow> real \<Rightarrow> real list \<Rightarrow> real list option" where
  "normalize_node store n samples =
     fold (\<lambda>i r.
             case r of
               None \<Rightarrow> None
             | Some a \<Rightarrow>
                 (case store (a ! i / n) of Fin s \<Rightarrow> Some (a[i := s]) | _ \<Rightarrow> None))
       [0..<length samples] (Some samples)"

definition PianolizerNode_process ::
  "(real \<Rightarrow> jsnum) \<Rightarrow> ('s \<Rightarrow> real list \<Rightarrow> real \<Rightarrow> 's \<times> real list \<times> 'l) \<Rightarrow> real \<Rightarrow>
   's PianolizerNode \<Rightarrow> real list list list \<Rightarrow> real \<Rightarrow>
   js_error + ('s PianolizerNode \<times> 'l option \<times> bool)" where
  "PianolizerNode_process store bank_process currentTime this input smooth =
     (case input of
        [] \<Rightarrow> Inl TypeError
      | port0 # _ \<Rightarrow>
          if length port0 = 0 then Inr (this, None, True)
          else
            let windowSize = length (port0 ! 0);
                samples0 = (case samples_node this of
                              None \<Rightarrow> replicate windowSize 0
                            | Some s \<Rightarrow>
                                if length s \<noteq> windowSize then replicate windowSize 0 else s)
            in case mixdown_node store windowSize input (samples0, 0) of
                 None \<Rightarrow> Inl NotANumber
               | Some (samples1, count) \<Rightarrow>
                   (case normalize_node store (real count / real windowSize) samples1 of
                      None \<Rightarrow> Inl NotANumber
                    | Some samples2 \<Rightarrow>
                        let (bank', samples3, levels) =
                               bank_process (slidingDFT this) samples2 smooth;
                            this1 = this\<lparr>samples_node := Some samples3, slidingDFT := bank'\<rparr>
                        in if nextUpdateFrame_node this1 \<le> currentTime
                           then Inr (this1\<lparr>nextUpdateFrame_node :=
                                             currentTime + updateInterval this1\<rparr>,
                                     Some levels, True)
                           else Inr (this1, None, True)))"

section \<open>Specification vocabulary\<close>

text \<open>
  \<open>ago xs d\<close> is the sample fed \<open>d\<close> samples before the most recent one, when \<open>xs\<close>
  lists the samples fed so far, oldest first; before the first samples it is zero.
  \<open>stored ys d\<close> is the same for the elements of a buffer: the element stored \<open>d\<close>
  writes before the most recent one, and the zero the buffer was created with before
  the first writes.
\<close>

definition ago :: "real list \<Rightarrow> nat \<Rightarrow> real" where
  "ago xs d = (if d < length xs then rev xs ! d else 0)"

definition stored :: "jsnum list \<Rightarrow> nat \<Rightarrow> jsnum" where
  "stored ys d = (if d < length ys then rev ys ! d else Fin 0)"

text \<open>
  The state of a buffer of \<open>2 ^ b\<close> slots after the elements \<open>ys\<close> have been stored: the
  cursor counts the writes, and the slot \<open>d\<close> places behind it holds \<open>stored ys d\<close>.
\<close>

definition rb_inv :: "nat \<Rightarrow> jsnum list \<Rightarrow> RingBuffer \<Rightarrow> bool" where
  "rb_inv b ys rb \<longleftrightarrow>
     b < 31 \<and> mask_rb rb = 2 ^ b - 1 \<and> length (buffer rb) = 2 ^ b \<and>
     index rb = int (length ys) \<and>
     (\<forall>d < 2 ^ b. buffer rb ! nat ((int (length ys) - 1 - int d) mod 2 ^ b) = stored ys d)"

text \<open>
  The closed forms of the accumulators after the samples \<open>xs\<close>, for a rotation \<open>c\<close>. With
  a lookback of \<open>w\<close> samples, every sample enters once and leaves \<open>w\<close> samples later,
  and is rotated at every step: that is \<open>unrolled\<close>. \<open>sliding_sum\<close> and
  \<open>window_power\<close> are sums over a window of \<open>n\<close> samples: the sample \<open>j\<close> steps back has
  been rotated \<open>j + 1\<close> times.
\<close>

definition unrolled :: "complex \<Rightarrow> nat \<Rightarrow> real list \<Rightarrow> complex" where
  "unrolled c w xs =
     (\<Sum>j<length xs. complex_of_real (ago xs j - ago xs (j + w)) * c ^ Suc j)"

definition sliding_sum :: "complex \<Rightarrow> nat \<Rightarrow> real list \<Rightarrow> complex" where
  "sliding_sum c n xs = (\<Sum>j<n. complex_of_real (ago xs j) * c ^ Suc j)"

definition window_power :: "nat \<Rightarrow> real list \<Rightarrow> real" where
  "window_power n xs = (\<Sum>j<n. ago xs j * ago xs j)"

text \<open>The most recent \<open>n\<close> samples of a stream, oldest first (all of it when it is shorter).\<close>

definition window :: "nat \<Rightarrow> real list \<Rightarrow> real list" where
  "window n xs = drop (length xs - n) xs"

text \<open>
  The batch transform the recurrence is compared with: the coefficient number \<open>k\<close> of the
  discrete Fourier transform of a block \<open>w\<close>, recomputed from all of its samples.
\<close>

definition dft_coefficient :: "real \<Rightarrow> real list \<Rightarrow> complex" where
  "dft_coefficient k w =
     (\<Sum>n<length w. complex_of_real (w ! n) * cis (- (2 * pi * k * real n / real (length w))))"

text \<open>
  The engine constructed for \<open>sampleRate\<close> after the samples \<open>xs\<close>, each of them stored
  unchanged. The buffer has \<open>2 ^ 16\<close> slots, so the sample read as ``\<open>N\<close> steps back''
  is the one \<open>N mod 2 ^ 16\<close> steps back.
\<close>

definition engine_inv :: "nat \<Rightarrow> real list \<Rightarrow> SlidingDFT \<Rightarrow> bool" where
  "engine_inv sampleRate xs st \<longleftrightarrow>
     rb_inv 16 (map Fin xs) (ringBuffer st) \<and> sdft_k st = 440 \<and> sdft_N st = sampleRate \<and>
     coeff st = cis (2 * pi * (440 / real sampleRate)) \<and>
     dft st = unrolled (coeff st) (sampleRate mod 2 ^ 16) xs \<and>
     totalPower st = window_power (sampleRate mod 2 ^ 16) xs"

text \<open>
  The block that \<^verbatim>\<open>process\<close> feeds to its loop for a given input (the mix, divided by
  \<open>n\<close>), when the mix-down succeeds, holds a sample at least, and the buffer stores
  every sample of the block unchanged.
\<close>

definition fed_block :: "(real \<Rightarrow> jsnum) \<Rightarrow> real list list list \<Rightarrow> real list option" where
  "fed_block store input =
     (case mixdown store 128 input of
        Inl e \<Rightarrow> None
      | Inr (samples, count) \<Rightarrow>
          if count = 0 then None
          else let block = map (\<lambda>s. s / (real count / 128)) samples
               in if list_all (\<lambda>x. store x = Fin x) block then Some block else None)"

text \<open>The first \<open>T\<close> samples of a sine wave of 440 Hz and amplitude 1, at \<open>sampleRate\<close>.\<close>

definition sine :: "nat \<Rightarrow> nat \<Rightarrow> real list" where
  "sine sampleRate T = map (\<lambda>m. sin (2 * pi * 440 * (real m / real sampleRate))) [0..<T]"

section \<open>The 32-bit operators\<close>

lemma js_and_int: "js_and a b = signed_take_bit 31 (a AND b)"
  by (simp add: js_and_def ToInt32_def sint_sbintrunc' flip: of_int_and_eq)

lemma js_not_int: "js_not a = signed_take_bit 31 (- a - 1)"
proof -
  have "NOT (word_of_int a :: 32 word) = word_of_int (NOT a)"
    by (simp only: of_int_not_eq)
  then show ?thesis
    by (simp only: js_not_def ToInt32_def sint_sbintrunc' not_int_def) simp
qed

lemma js_shl_int: "js_shl a n = signed_take_bit 31 (a * 2 ^ (n mod 32))"
proof -
  have "push_bit (n mod 32) (word_of_int a :: 32 word) = word_of_int (push_bit (n mod 32) a)"
    by (simp only: of_int_push_bit)
  then show ?thesis
    by (simp only: js_shl_def ToInt32_def sint_sbintrunc' push_bit_eq_mult) simp
qed

lemma pow2_small: "b < 31 \<Longrightarrow> (2::int) ^ b < 2 ^ 31"
  by (rule power_strict_increasing) simp_all

lemma int32_id: assumes "0 \<le> y" "y < 2 ^ 31" shows "signed_take_bit 31 (y::int) = y"
proof -
  have "- (2 ^ 31) \<le> y" using assms(1) by (rule order_trans [rotated]) simp
  then show ?thesis using assms(2) by (simp add: signed_take_bit_int_eq_self)
qed

lemma js_shl_1: assumes "b mod 32 < 31" shows "js_shl 1 b = 2 ^ (b mod 32)"
  using pow2_small [OF assms] by (simp add: js_shl_int int32_id)

lemma js_shl_1_31: assumes "b mod 32 = 31" shows "js_shl 1 b = - (2 ^ 31)"
  using assms by (simp add: js_shl_int)

lemma js_and_mask: assumes "b < 31" shows "js_and x (2 ^ b - 1) = x mod 2 ^ b"
proof -
  have e: "x AND (2 ^ b - 1) = x mod 2 ^ b"
    by (simp add: take_bit_eq_mod flip: take_bit_eq_mask mask_eq_exp_minus_1)
  have "x mod 2 ^ b < 2 ^ b" by simp
  also note pow2_small [OF assms]
  finally show ?thesis
    unfolding js_and_int e by (simp add: int32_id)
qed

lemma signed_take_bit_mod:
  assumes "b \<le> 32" shows "signed_take_bit 31 (y::int) mod 2 ^ b = y mod 2 ^ b"
proof -
  have "take_bit 32 (signed_take_bit 31 y) = take_bit 32 y"
    by (simp add: take_bit_signed_take_bit)
  then have "take_bit b (take_bit 32 (signed_take_bit 31 y)) = take_bit b (take_bit 32 y)"
    by simp
  then have "take_bit b (signed_take_bit 31 y) = take_bit b y"
    using assms by (simp add: min_def)
  then show ?thesis by (simp add: take_bit_eq_mod)
qed

lemma read_slot: assumes "b < 31"
  shows "js_and (i + js_not d) (2 ^ b - 1) = (i - 1 - d mod 2 ^ b) mod 2 ^ b"
proof -
  have "(i + js_not d) mod 2 ^ b = (i mod 2 ^ b + js_not d mod 2 ^ b) mod 2 ^ b"
    by (simp add: mod_add_eq)
  also have "js_not d mod 2 ^ b = (- d - 1) mod 2 ^ b"
    using assms by (simp add: js_not_int signed_take_bit_mod)
  also have "(i mod 2 ^ b + (- d - 1) mod 2 ^ b) mod 2 ^ b = (i + (- d - 1)) mod 2 ^ b"
    by (simp add: mod_add_eq)
  also have "i + (- d - 1) = (i - 1) - d" by simp
  also have "((i - 1) - d) mod 2 ^ b = ((i - 1) - d mod 2 ^ b) mod 2 ^ b"
    by (simp add: mod_diff_right_eq)
  finally show ?thesis using assms by (simp add: js_and_mask)
qed

section \<open>Single precision\<close>

lemma fround_0: "fround 0 = Fin 0"
  by (simp add: fround_def)

lemma fround_binade:
  assumes "2 powi e \<le> \<bar>x\<bar>" and "\<bar>x\<bar> < 2 powi (e + 1)" and "- 126 \<le> e"
  shows "fround x =
    (let q = 2 powi (e - 23); r = q * of_int (round_ties_even (x / q))
     in if 2 ^ 128 \<le> r then PosInf else if r \<le> - (2 ^ 128) then NegInf else Fin r)"
proof -
  have pos: "0 < \<bar>x\<bar>"
    using assms(1) by (rule less_le_trans [rotated]) simp
  have "(2::real) powr real_of_int e = 2 powi e"
    and "(2::real) powr (real_of_int e + 1) = 2 powi (e + 1)"
    using powr_real_of_int' [of "2::real" e] powr_real_of_int' [of "2::real" "e + 1"]
    by simp_all
  then have "\<lfloor>log 2 \<bar>x\<bar>\<rfloor> = e"
    using assms(1,2) pos by (simp only: floor_log_eq_powr_iff) simp
  then show ?thesis
    using pos assms(3) by (simp add: fround_def)
qed

lemma fround_1: "fround 1 = Fin 1"
  using fround_binade [of 0 1] by (simp add: round_ties_even_def)

lemma fround_2: "fround 2 = Fin 2"
  using fround_binade [of 1 2] by (simp add: round_ties_even_def)

lemma fround_half: "fround (1 / 2) = Fin (1 / 2)"
  using fround_binade [of "- 1" "1 / 2"] by (simp add: round_ties_even_def)

lemma fround_tenth: "fround (1 / 10) = Fin (13421773 / 134217728)"
  using fround_binade [of "- 4" "1 / 10"] by (simp add: round_ties_even_def)

lemma fround_16777217: "fround 16777217 = Fin 16777216"
  using fround_binade [of 24 16777217] by (simp add: round_ties_even_def)

section \<open>The slots of the ring buffer\<close>

lemma ago_snoc_0: "ago (xs @ [v]) 0 = v"
  by (simp add: ago_def)

lemma ago_snoc_Suc: "ago (xs @ [v]) (Suc d) = ago xs d"
  by (simp add: ago_def)

lemma ago_Nil: "ago [] d = 0"
  by (simp add: ago_def)

lemma stored_snoc_0: "stored (ys @ [v]) 0 = v"
  by (simp add: stored_def)

lemma stored_snoc_Suc: "stored (ys @ [v]) (Suc d) = stored ys d"
  by (simp add: stored_def)

lemma stored_Nil: "stored [] d = Fin 0"
  by (simp add: stored_def)

lemma stored_exact: "stored (map Fin xs) d = Fin (ago xs d)"
  by (simp add: stored_def ago_def rev_map)

lemma RingBuffer_new_ok:
  assumes "bits mod 32 < 31"
  shows "RingBuffer_new bits =
    Inr \<lparr>mask_rb = 2 ^ (bits mod 32) - 1, buffer = replicate (2 ^ (bits mod 32)) (Fin 0), index = 0\<rparr>"
proof -
  have "nat ((2::int) ^ (bits mod 32)) = 2 ^ (bits mod 32)"
    by (simp add: nat_power_eq)
  then show ?thesis
    by (simp add: RingBuffer_new_def js_shl_1 [OF assms] Let_def)
qed

lemma rb_inv_new:
  assumes "RingBuffer_new bits = Inr rb" shows "rb_inv (bits mod 32) [] rb"
proof -
  have "bits mod 32 < 32" by simp
  have lt: "bits mod 32 < 31"
  proof (rule ccontr)
    assume "\<not> bits mod 32 < 31"
    with \<open>bits mod 32 < 32\<close> have "bits mod 32 = 31" by linarith
    then have "js_shl 1 bits = - (2 ^ 31)" by (rule js_shl_1_31)
    with assms show False by (simp add: RingBuffer_new_def)
  qed
  from assms have "rb = \<lparr>mask_rb = 2 ^ (bits mod 32) - 1,
      buffer = replicate (2 ^ (bits mod 32)) (Fin 0), index = 0\<rparr>"
    by (simp add: RingBuffer_new_ok [OF lt])
  moreover have "nat ((- 1 - int d) mod 2 ^ (bits mod 32)) < 2 ^ (bits mod 32)" for d
    by (simp add: nat_less_iff)
  ultimately show ?thesis using lt by (simp add: rb_inv_def stored_Nil)
qed

lemma rb_inv_write:
  assumes "rb_inv b xs rb"
  shows "rb_inv b (xs @ [store v]) (RingBuffer_write store rb v)"
proof -
  let ?m = "(2::int) ^ b" and ?n = "int (length xs)"
  from assms have b: "b < 31" and mask: "mask_rb rb = ?m - 1"
    and len: "length (buffer rb) = 2 ^ b" and idx: "index rb = ?n"
    and old: "\<And>d. d < 2 ^ b \<Longrightarrow> buffer rb ! nat ((?n - 1 - int d) mod ?m) = stored xs d"
    by (simp_all add: rb_inv_def)
  have slot: "js_and (index rb) (mask_rb rb) = ?n mod ?m"
    by (simp add: mask idx js_and_mask [OF b])
  have lenm: "int (length (buffer rb)) = ?m" by (simp add: len)
  have buf: "buffer (RingBuffer_write store rb v) = (buffer rb)[nat (?n mod ?m) := store v]"
    by (simp add: RingBuffer_write_def array_set_def slot lenm)
  have new: "buffer (RingBuffer_write store rb v) ! nat ((int (length (xs @ [store v])) - 1 - int d) mod ?m)
      = stored (xs @ [store v]) d" if d: "d < 2 ^ b" for d
  proof (cases d)
    case 0
    have "nat (?n mod ?m) < length (buffer rb)"
      using lenm by (simp add: nat_less_iff)
    then show ?thesis by (simp add: 0 buf stored_snoc_0)
  next
    case (Suc d')
    have d': "d' < 2 ^ b" using d Suc by simp
    have dm: "int d < ?m" using d by (simp flip: of_nat_less_iff)
    have ne: "(?n - int d) mod ?m \<noteq> ?n mod ?m"
    proof
      assume "(?n - int d) mod ?m = ?n mod ?m"
      then have "?m dvd (?n - int d) - ?n" by (simp only: mod_eq_dvd_iff)
      then have "?m dvd int d" by simp
      then have "?m \<le> int d" using Suc by (intro zdvd_imp_le) simp_all
      with dm show False by simp
    qed
    have nn: "nat ((?n - int d) mod ?m) \<noteq> nat (?n mod ?m)"
      using ne by (simp add: nat_eq_iff)
    have e: "int (length (xs @ [store v])) - 1 - int d = ?n - int d" by simp
    have e': "?n - 1 - int d' = ?n - int d" using Suc by simp
    have "buffer rb ! nat ((?n - int d) mod ?m) = stored xs d'"
      using old [OF d'] by (simp only: e')
    then have "(buffer rb)[nat (?n mod ?m) := store v] ! nat ((?n - int d) mod ?m) = stored xs d'"
      using nn by simp
    moreover have "stored (xs @ [store v]) d = stored xs d'"
      by (simp add: Suc stored_snoc_Suc)
    ultimately show ?thesis
      by (simp only: buf e)
  qed
  have "mask_rb (RingBuffer_write store rb v) = ?m - 1"
    by (simp add: RingBuffer_write_def mask)
  moreover have "length (buffer (RingBuffer_write store rb v)) = 2 ^ b"
    by (simp add: buf len)
  moreover have "index (RingBuffer_write store rb v) = int (length (xs @ [store v]))"
    by (simp add: RingBuffer_write_def idx)
  ultimately show ?thesis
    unfolding rb_inv_def using b new by blast
qed

lemma rb_inv_read:
  assumes "rb_inv b xs rb"
  shows "RingBuffer_read rb d = Some (stored xs (nat (d mod 2 ^ b)))"
proof -
  let ?m = "(2::int) ^ b" and ?n = "int (length xs)"
  from assms have b: "b < 31" and mask: "mask_rb rb = ?m - 1"
    and len: "length (buffer rb) = 2 ^ b" and idx: "index rb = ?n"
    and old: "\<And>d. d < 2 ^ b \<Longrightarrow> buffer rb ! nat ((?n - 1 - int d) mod ?m) = stored xs d"
    by (simp_all add: rb_inv_def)
  have lenm: "int (length (buffer rb)) = ?m" by (simp add: len)
  have slot: "js_and (index rb + js_not d) (mask_rb rb) = (?n - 1 - d mod ?m) mod ?m"
    by (simp add: mask idx read_slot [OF b])
  have "nat (d mod ?m) < 2 ^ b"
    by (simp add: nat_less_iff)
  from old [OF this] show ?thesis
    by (simp add: RingBuffer_read_def slot array_get_def lenm)
qed

section \<open>The ring buffer\<close>

lemma capacity_new:
  assumes "RingBuffer_new bits = Inr rb" shows "length (buffer rb) = 2 ^ (bits mod 32)"
  using rb_inv_new [OF assms] by (simp add: rb_inv_def)

lemma rb_inv_writes:
  "rb_inv b ys rb \<Longrightarrow> rb_inv b (ys @ map store vs) (foldl (RingBuffer_write store) rb vs)"
proof (induction vs arbitrary: ys rb)
  case Nil
  then show ?case by simp
next
  case (Cons v vs)
  from Cons.IH [OF rb_inv_write [OF Cons.prems, of store v]] show ?case by simp
qed

lemma calls_written:
  "foldl (call store) rb cs = foldl (RingBuffer_write store) rb (written cs)"
  by (induction cs arbitrary: rb rule: written.induct) simp_all

lemma rb_inv_calls:
  assumes "RingBuffer_new bits = Inr rb0"
  shows "rb_inv (bits mod 32) (map store (written cs)) (foldl (call store) rb0 cs)"
  using rb_inv_writes [OF rb_inv_new [OF assms], of store "written cs"]
  by (simp add: calls_written)

lemma nat_int_mod_small: "d < 2 ^ b \<Longrightarrow> nat (int d mod 2 ^ b) = d"
  by (simp flip: of_nat_less_iff)

lemma RingBuffer_new_16:
  "RingBuffer_new 16 = Inr \<lparr>mask_rb = 65535, buffer = replicate 65536 (Fin 0), index = 0\<rparr>"
  using RingBuffer_new_ok [of 16] by simp

text \<open>
  Claim C3, as amended. On a buffer made by the constructor, after any interleaving of
  \<open>write\<close> and \<open>read\<close> calls, \<open>read d\<close> with \<open>d\<close> below the capacity returns the
  single-precision conversion \<open>fround s\<close> of the sample \<open>s\<close> written \<open>d\<close> writes before
  the most recently written one (and the initial zero when fewer than \<open>d + 1\<close> samples
  have been written). A \<open>read\<close> changes no field, so only the writes among the calls
  matter.
\<close>

theorem read_lookback:
  assumes "RingBuffer_new bits = Inr rb0" and "d < length (buffer rb0)"
  shows "RingBuffer_read (foldl (call fround) rb0 cs) (int d) =
    Some (if d < length (written cs) then fround (rev (written cs) ! d) else Fin 0)"
proof -
  have "d < 2 ^ (bits mod 32)" using assms by (simp add: capacity_new)
  then show ?thesis
    using rb_inv_read [OF rb_inv_calls [OF assms(1)], of fround cs "int d"]
    by (simp add: nat_int_mod_small stored_def rev_map)
qed

theorem read_lookback_witness:
  "RingBuffer_new 16 = Inr \<lparr>mask_rb = 65535, buffer = replicate 65536 (Fin 0), index = 0\<rparr> \<and>
   (1::nat) < length (buffer \<lparr>mask_rb = 65535, buffer = replicate 65536 (Fin 0), index = 0\<rparr>) \<and>
   RingBuffer_read
     (foldl (call fround) \<lparr>mask_rb = 65535, buffer = replicate 65536 (Fin 0), index = 0\<rparr>
        [Write 1, Read 7, Write (1 / 10), Read 0, Write 3]) 1 =
     Some (Fin (13421773 / 134217728))"
proof -
  note n = RingBuffer_new_16
  have c: "(1::nat) < length (buffer \<lparr>mask_rb = 65535, buffer = replicate 65536 (Fin 0), index = 0\<rparr>)"
    by simp
  from read_lookback [OF n c, of "[Write 1, Read 7, Write (1 / 10), Read 0, Write 3]"] n c
  show ?thesis by (simp add: fround_tenth)
qed

text \<open>
  Claim C3 as stated fails when the sample written is not a single-precision number:
  after \<open>write 16777217\<close> and \<open>write 2\<close>, \<open>read 1\<close> returns 16777216.
\<close>

theorem read_lookback_counterexample:
  "RingBuffer_new 16 = Inr \<lparr>mask_rb = 65535, buffer = replicate 65536 (Fin 0), index = 0\<rparr> \<and>
   RingBuffer_read
     (foldl (call fround) \<lparr>mask_rb = 65535, buffer = replicate 65536 (Fin 0), index = 0\<rparr>
        [Write 16777217, Read 5, Write 2]) 1 = Some (Fin 16777216) \<and>
   Fin 16777216 \<noteq> Fin 16777217"
proof -
  note n = RingBuffer_new_16
  from rb_inv_read [OF rb_inv_calls [OF n], of fround "[Write 16777217, Read 5, Write 2]" 1] n
  show ?thesis by (simp add: stored_def fround_16777217)
qed

text \<open>
  Claim C9, as amended. Immediately after \<open>write v\<close>, on a buffer made by the
  constructor and used in any way before, \<open>read 0\<close> returns \<open>fround v\<close>, the
  single-precision conversion of \<open>v\<close>.
\<close>

theorem read_zero_after_write:
  assumes "RingBuffer_new bits = Inr rb0"
  shows "RingBuffer_read (RingBuffer_write fround (foldl (call fround) rb0 cs) v) 0 =
    Some (fround v)"
proof -
  have "rb_inv (bits mod 32) (map fround (written cs) @ [fround v])
      (RingBuffer_write fround (foldl (call fround) rb0 cs) v)"
    by (rule rb_inv_write [OF rb_inv_calls [OF assms]])
  from rb_inv_read [OF this, of 0] show ?thesis
    by (simp add: stored_snoc_0)
qed

theorem read_zero_after_write_witness:
  "RingBuffer_new 16 = Inr \<lparr>mask_rb = 65535, buffer = replicate 65536 (Fin 0), index = 0\<rparr> \<and>
   RingBuffer_read
     (RingBuffer_write fround
        (foldl (call fround) \<lparr>mask_rb = 65535, buffer = replicate 65536 (Fin 0), index = 0\<rparr>
           [Write 1, Read 3, Write 2]) 16777217) 0 = Some (Fin 16777216)"
proof -
  note n = RingBuffer_new_16
  from read_zero_after_write [OF n, of "[Write 1, Read 3, Write 2]" 16777217] n
  show ?thesis by (simp add: fround_16777217)
qed

text \<open>
  Claim C9 as stated fails at \<open>v = 0.1\<close>: on a new buffer, \<open>read 0\<close> after \<open>write 0.1\<close>
  returns \<open>13421773 / 2 ^ 27\<close>, the single-precision number nearest to it.
\<close>

theorem read_zero_after_write_counterexample:
  "RingBuffer_new 16 = Inr \<lparr>mask_rb = 65535, buffer = replicate 65536 (Fin 0), index = 0\<rparr> \<and>
   RingBuffer_read
     (RingBuffer_write fround \<lparr>mask_rb = 65535, buffer = replicate 65536 (Fin 0), index = 0\<rparr>
        (1 / 10)) 0 = Some (Fin (13421773 / 134217728)) \<and>
   Fin (13421773 / 134217728) \<noteq> Fin (1 / 10)"
proof -
  note n = RingBuffer_new_16
  have "rb_inv 16 ([] @ [fround (1 / 10)])
      (RingBuffer_write fround \<lparr>mask_rb = 65535, buffer = replicate 65536 (Fin 0), index = 0\<rparr>
        (1 / 10))"
    using rb_inv_write [OF rb_inv_new [OF n], of fround "1 / 10"] by simp
  from rb_inv_read [OF this, of 0] n show ?thesis
    by (simp add: stored_def fround_tenth)
qed

section \<open>The engine after a stream of samples\<close>

lemma Complex_add_eq: "Complex_add a b = a + b"
  by (simp add: Complex_add_def complex_eq_iff)

lemma Complex_sub_eq: "Complex_sub a b = a - b"
  by (simp add: Complex_sub_def complex_eq_iff)

lemma Complex_mul_eq: "Complex_mul a b = a * b"
  by (simp add: Complex_mul_def complex_eq_iff)

lemma Complex_real: "Complex x 0 = complex_of_real x"
  by (simp add: complex_eq_iff)

lemma Complex_exp_imaginary: "Complex_exp (Complex 0 t) = cis t"
  by (simp add: Complex_exp_def complex_eq_iff)

lemma magnitude_eq: "magnitude z = cmod z"
  by (simp add: magnitude_def cmod_def power2_eq_square)

lemma SlidingDFT_new_eq:
  "SlidingDFT_new sampleRate =
     Inr \<lparr>updateIntervalInMS = 1000 / 30, nextUpdateFrame = 1000 / 30,
          ringBuffer = \<lparr>mask_rb = 65535, buffer = replicate 65536 (Fin 0), index = 0\<rparr>,
          sdft_k = 440, sdft_N = sampleRate,
          coeff = cis (2 * pi * (440 / real sampleRate)), dft = 0, totalPower = 0\<rparr>"
  by (simp add: SlidingDFT_new_def RingBuffer_new_16 Complex_exp_imaginary Complex_real)

lemma window_power_Nil: "window_power n [] = 0"
  by (simp add: window_power_def ago_Nil)

lemma sliding_sum_Nil: "sliding_sum c n [] = 0"
  by (simp add: sliding_sum_def ago_Nil)

lemma unrolled_Nil: "unrolled c w [] = 0"
  by (simp add: unrolled_def)

lemma engine_inv_new:
  assumes "SlidingDFT_new sampleRate = Inr st" shows "engine_inv sampleRate [] st"
proof -
  from rb_inv_new [OF RingBuffer_new_16]
  have "rb_inv 16 [] \<lparr>mask_rb = 65535, buffer = replicate 65536 (Fin 0), index = 0\<rparr>"
    by simp
  then show ?thesis
    using assms
    by (auto simp add: SlidingDFT_new_eq engine_inv_def window_power_Nil unrolled_Nil)
qed

lemma window_power_snoc:
  "window_power (Suc m) (xs @ [x]) = window_power (Suc m) xs - ago xs m * ago xs m + x * x"
proof -
  have "window_power (Suc m) (xs @ [x]) = x * x + (\<Sum>j<m. ago xs j * ago xs j)"
    unfolding window_power_def sum.lessThan_Suc_shift by (simp add: ago_snoc_0 ago_snoc_Suc)
  moreover have "window_power (Suc m) xs = (\<Sum>j<m. ago xs j * ago xs j) + ago xs m * ago xs m"
    unfolding window_power_def by simp
  ultimately show ?thesis by simp
qed

lemma window_power_0: "window_power 0 xs = 0"
  by (simp add: window_power_def)

lemma unrolled_0: "unrolled c 0 xs = 0"
  by (simp add: unrolled_def)

lemma unrolled_snoc:
  "unrolled c (Suc m) (xs @ [x]) =
     (unrolled c (Suc m) xs - complex_of_real (ago xs m) + complex_of_real x) * c"
proof -
  have "unrolled c (Suc m) (xs @ [x]) =
      (\<Sum>j<Suc (length xs).
         complex_of_real (ago (xs @ [x]) j - ago (xs @ [x]) (j + Suc m)) * c ^ Suc j)"
    by (simp add: unrolled_def)
  also have "\<dots> = complex_of_real (x - ago xs m) * c +
      (\<Sum>j<length xs. complex_of_real (ago xs j - ago xs (j + Suc m)) * c ^ Suc (Suc j))"
    unfolding sum.lessThan_Suc_shift by (simp add: ago_snoc_0 ago_snoc_Suc)
  also have "(\<Sum>j<length xs. complex_of_real (ago xs j - ago xs (j + Suc m)) * c ^ Suc (Suc j)) =
      unrolled c (Suc m) xs * c"
    unfolding unrolled_def sum_distrib_right by (rule sum.cong) (simp_all add: mult_ac)
  finally show ?thesis
    by (simp add: algebra_simps)
qed

lemma previous_sample:
  assumes "rb_inv 16 ys rb"
  shows "RingBuffer_read (RingBuffer_write store rb x) (int n) =
    Some (case n mod 2 ^ 16 of 0 \<Rightarrow> store x | Suc m \<Rightarrow> stored ys m)"
proof -
  have "nat (int n mod 2 ^ 16) = n mod 2 ^ 16"
    by (simp add: nat_mod_distrib)
  then show ?thesis
    using rb_inv_read [OF rb_inv_write [OF assms, of store x], of "int n"]
    by (simp add: stored_snoc_0 stored_snoc_Suc split: nat.split)
qed

lemma process_sample_inv:
  assumes "engine_inv sr xs st" and "store x = Fin x"
  shows "\<exists>st'. process_sample store st x = Inr st' \<and> engine_inv sr (xs @ [x]) st' \<and>
    nextUpdateFrame st' = nextUpdateFrame st \<and>
    updateIntervalInMS st' = updateIntervalInMS st"
proof -
  from assms(1) have rb: "rb_inv 16 (map Fin xs) (ringBuffer st)" and n: "sdft_N st = sr"
    and k: "sdft_k st = 440"
    and c: "coeff st = cis (2 * pi * (440 / real sr))"
    and d: "dft st = unrolled (coeff st) (sr mod 2 ^ 16) xs"
    and p: "totalPower st = window_power (sr mod 2 ^ 16) xs"
    by (simp_all add: engine_inv_def)
  let ?prev = "case sr mod 2 ^ 16 of 0 \<Rightarrow> x | Suc m \<Rightarrow> ago xs m"
  have "(case sr mod 2 ^ 16 of 0 \<Rightarrow> store x | Suc m \<Rightarrow> stored (map Fin xs) m) = Fin ?prev"
    by (simp add: assms(2) stored_exact split: nat.split)
  then have rd: "RingBuffer_read (RingBuffer_write store (ringBuffer st) x) (int sr) =
      Some (Fin ?prev)"
    by (simp only: previous_sample [OF rb])
  have pw: "window_power (sr mod 2 ^ 16) xs - ?prev * ?prev + x * x
      = window_power (sr mod 2 ^ 16) (xs @ [x])"
    by (cases "sr mod 2 ^ 16") (simp_all add: window_power_0 window_power_snoc)
  have un: "(unrolled (coeff st) (sr mod 2 ^ 16) xs - complex_of_real ?prev
        + complex_of_real x) * coeff st
      = unrolled (coeff st) (sr mod 2 ^ 16) (xs @ [x])"
    by (cases "sr mod 2 ^ 16") (simp_all add: unrolled_0 unrolled_snoc)
  have w: "rb_inv 16 (map Fin (xs @ [x])) (RingBuffer_write store (ringBuffer st) x)"
    using rb_inv_write [OF rb, of store x] by (simp add: assms(2))
  show ?thesis
    using w n k c d p pw un
    by (simp add: process_sample_def rd engine_inv_def Complex_add_eq Complex_sub_eq
        Complex_mul_eq Complex_real del: map_append)
qed

lemma process_loop_append:
  "process_loop store st (xs @ ys) =
     (case process_loop store st xs of
        Inl e \<Rightarrow> Inl e
      | Inr st' \<Rightarrow> process_loop store st' ys)"
  by (induction xs arbitrary: st) (simp_all split: sum.split)

lemma coeff_power:
  assumes "0 < n" shows "cis (2 * pi * (440 / real n)) ^ n = 1"
proof -
  have "cis (2 * pi * (440 / real n)) ^ n = cis (real n * (2 * pi * (440 / real n)))"
    by (rule DeMoivre)
  also have "real n * (2 * pi * (440 / real n)) = 2 * pi * 440"
    using assms by simp
  also have "cis (2 * pi * 440) = 1"
    by (rule cis_multiple_2pi) simp
  finally show ?thesis .
qed

lemma sliding_sum_snoc:
  assumes "c ^ Suc m = 1"
  shows "sliding_sum c (Suc m) (xs @ [x]) =
    (sliding_sum c (Suc m) xs - complex_of_real (ago xs m) + complex_of_real x) * c"
proof -
  have "sliding_sum c (Suc m) (xs @ [x]) =
      complex_of_real x * c + (\<Sum>j<m. complex_of_real (ago xs j) * c ^ Suc (Suc j))"
    unfolding sliding_sum_def sum.lessThan_Suc_shift by (simp add: ago_snoc_0 ago_snoc_Suc)
  moreover have "sliding_sum c (Suc m) xs =
      (\<Sum>j<m. complex_of_real (ago xs j) * c ^ Suc j) + complex_of_real (ago xs m) * c ^ Suc m"
    unfolding sliding_sum_def by simp
  moreover have "(\<Sum>j<m. complex_of_real (ago xs j) * c ^ Suc (Suc j)) =
      (\<Sum>j<m. complex_of_real (ago xs j) * c ^ Suc j) * c"
    unfolding sum_distrib_right by (rule sum.cong) (simp_all add: mult_ac)
  ultimately show ?thesis
    using assms by (simp add: algebra_simps)
qed

lemma process_loop_inv:
  assumes "engine_inv sr xs st" and "\<forall>y \<in> set ys. store y = Fin y"
  shows "\<exists>st'. process_loop store st ys = Inr st' \<and> engine_inv sr (xs @ ys) st' \<and>
    nextUpdateFrame st' = nextUpdateFrame st \<and>
    updateIntervalInMS st' = updateIntervalInMS st"
  using assms
proof (induction ys arbitrary: xs st)
  case Nil
  then show ?case by simp
next
  case (Cons y ys)
  from Cons.prems(2) have y: "store y = Fin y" and ys: "\<forall>y \<in> set ys. store y = Fin y"
    by simp_all
  from process_sample_inv [where store = store and x = y, OF Cons.prems(1) y] obtain st1 where
    ps: "process_sample store st y = Inr st1" and inv1: "engine_inv sr (xs @ [y]) st1"
    and f1: "nextUpdateFrame st1 = nextUpdateFrame st"
        "updateIntervalInMS st1 = updateIntervalInMS st"
    by blast
  from Cons.IH [OF inv1 ys] obtain st2 where
    pl: "process_loop store st1 ys = Inr st2" and inv2: "engine_inv sr ((xs @ [y]) @ ys) st2"
    and f2: "nextUpdateFrame st2 = nextUpdateFrame st1"
        "updateIntervalInMS st2 = updateIntervalInMS st1"
    by blast
  show ?case
    using ps pl inv2 f1 f2 by simp
qed

lemma unrolled_eq_sliding_sum:
  assumes "c ^ Suc m = 1"
  shows "unrolled c (Suc m) xs = sliding_sum c (Suc m) xs"
proof (induction xs rule: rev_induct)
  case Nil
  show ?case by (simp add: unrolled_Nil sliding_sum_Nil)
next
  case (snoc x xs)
  then show ?case
    by (simp only: unrolled_snoc sliding_sum_snoc [OF assms])
qed

lemma engine_dft_window:
  assumes "engine_inv sr xs st" and "0 < sr" and "sr < 2 ^ 16"
  shows "dft st = sliding_sum (cis (2 * pi * (440 / real sr))) sr xs"
proof -
  from assms(2) obtain m where m: "sr = Suc m" by (cases sr) simp_all
  have "cis (2 * pi * (440 / real sr)) ^ Suc m = 1"
    using coeff_power [OF assms(2)] by (simp add: m)
  from unrolled_eq_sliding_sum [OF this, of xs] show ?thesis
    using assms(1,3) by (simp add: engine_inv_def m)
qed

lemma feed_after:
  assumes "\<forall>x \<in> set xs. store x = Fin x"
  shows "\<exists>st. feed store sr xs = Inr st \<and> engine_inv sr xs st \<and>
    nextUpdateFrame st = 1000 / 30 \<and> updateIntervalInMS st = 1000 / 30"
proof -
  obtain st0 where n: "SlidingDFT_new sr = Inr st0"
    by (simp add: SlidingDFT_new_eq)
  have "nextUpdateFrame st0 = 1000 / 30" "updateIntervalInMS st0 = 1000 / 30"
    using n by (auto simp add: SlidingDFT_new_eq)
  with process_loop_inv [where store = store and ys = xs, OF engine_inv_new [OF n] assms]
  show ?thesis by (auto simp add: feed_def n)
qed

lemma feed_exact:
  "\<exists>st. feed Fin sr xs = Inr st \<and> engine_inv sr xs st \<and>
    nextUpdateFrame st = 1000 / 30 \<and> updateIntervalInMS st = 1000 / 30"
  by (rule feed_after) simp

lemma ago_window:
  assumes "j < n" shows "ago xs j = (if j < length (window n xs) then rev (window n xs) ! j else 0)"
  using assms by (auto simp add: ago_def window_def rev_nth)

lemma window_power_sum_list: "window_power n xs = (\<Sum>x\<leftarrow>window n xs. x * x)"
proof -
  let ?w = "window n xs"
  have len: "length ?w \<le> n" by (simp add: window_def)
  have "window_power n xs = (\<Sum>j<n. if j < length ?w then rev ?w ! j * rev ?w ! j else 0)"
    unfolding window_power_def by (rule sum.cong) (simp_all add: ago_window)
  also have "\<dots> = (\<Sum>j<length ?w. rev ?w ! j * rev ?w ! j)"
    using len by (intro sum.mono_neutral_cong_right) auto
  also have "\<dots> = (\<Sum>x\<leftarrow>rev ?w. x * x)"
    by (simp add: sum_list_sum_nth atLeast0LessThan)
  also have "\<dots> = (\<Sum>x\<leftarrow>?w. x * x)"
    by (simp add: rev_map [symmetric])
  finally show ?thesis .
qed

lemma sliding_sum_batch:
  assumes "0 < n" "n \<le> length xs"
  shows "sliding_sum (cis (2 * pi * (440 / real n))) n xs = dft_coefficient 440 (window n xs)"
proof -
  let ?c = "cis (2 * pi * (440 / real n))" and ?w = "window n xs"
  have len: "length ?w = n" using assms by (simp add: window_def)
  have "sliding_sum ?c n xs = (\<Sum>i<n. complex_of_real (ago xs (n - Suc i)) * ?c ^ Suc (n - Suc i))"
    unfolding sliding_sum_def by (rule sum.nat_diff_reindex [symmetric])
  also have "\<dots> = (\<Sum>i<n. complex_of_real (?w ! i) * cis (- (2 * pi * 440 * real i / real n)))"
  proof (rule sum.cong [OF refl])
    fix i assume "i \<in> {..<n}"
    then have i: "i < n" by simp
    have k: "length xs - Suc (n - Suc i) = length xs - n + i"
      using i assms by arith
    have "n - Suc i < length xs" using i assms by arith
    then have a: "ago xs (n - Suc i) = ?w ! i"
      using i assms by (simp add: ago_def rev_nth k window_def)
    have "?c ^ Suc (n - Suc i) = cis (real (Suc (n - Suc i)) * (2 * pi * (440 / real n)))"
      by (rule DeMoivre)
    also have "real (Suc (n - Suc i)) = real n - real i"
      using i by (simp add: Suc_diff_Suc of_nat_diff)
    also have "(real n - real i) * (2 * pi * (440 / real n)) =
        2 * pi * 440 + - (2 * pi * 440 * real i / real n)"
      using assms by (simp add: field_simps)
    also have "cis (2 * pi * 440 + - (2 * pi * 440 * real i / real n)) =
        cis (2 * pi * 440) * cis (- (2 * pi * 440 * real i / real n))"
      by (simp only: cis_mult)
    also have "cis (2 * pi * 440) = 1"
      by (rule cis_multiple_2pi) simp
    finally show "complex_of_real (ago xs (n - Suc i)) * ?c ^ Suc (n - Suc i) =
        complex_of_real (?w ! i) * cis (- (2 * pi * 440 * real i / real n))"
      by (simp add: a)
  qed
  finally show ?thesis by (simp add: dft_coefficient_def len)
qed

section \<open>A sine wave at the frequency of the bin\<close>

lemma geometric_root_sum:
  fixes z :: complex
  assumes "z \<noteq> 1" and "z ^ n = 1"
  shows "(\<Sum>j<n. z ^ j) = 0"
  using geometric_sum [OF assms(1), of n] assms(2) by simp

lemma cis_eq_1_imp:
  assumes "cis t = 1" shows "\<exists>k::int. t = of_int k * 2 * pi"
proof -
  from assms have "cos t = 1" by (simp add: complex_eq_iff)
  then show ?thesis by (simp add: cos_one_2pi_int)
qed

lemma double_rotation_neq_1:
  assumes "880 < n" and t: "t * real n = 440 * (2 * pi)"
  shows "cis (2 * t) \<noteq> 1"
proof
  assume "cis (2 * t) = 1"
  then obtain k :: int where "2 * t = of_int k * 2 * pi"
    using cis_eq_1_imp by blast
  then have "t = of_int k * pi" by simp
  then have "(of_int k * real n) * pi = 440 * (2 * pi)"
    using t by (simp add: mult_ac)
  then have "(of_int k * real n) * pi = 880 * pi" by simp
  then have "real_of_int k * real n = 880"
    by (simp only: mult_cancel_right) simp
  then have "real_of_int (k * int n) = real_of_int 880" by simp
  then have e: "k * int n = 880" by (simp only: of_int_eq_iff)
  show False
  proof (cases "k \<le> 0")
    case True
    then have "k * int n \<le> 0" by (simp add: mult_le_0_iff)
    with e show False by simp
  next
    case False
    then have "1 \<le> k" by simp
    then have "1 * int n \<le> k * int n" by (intro mult_right_mono) simp_all
    with e assms(1) show False by simp
  qed
qed

lemma rotation_sums:
  assumes "cis (2 * t) \<noteq> 1" and "cis t ^ n = 1"
  shows "(\<Sum>j<n. cis (2 * t) ^ j) = 0" and "(\<Sum>j<n. cis (- (2 * t)) ^ j) = 0"
proof -
  have "cis (2 * t) = cis t * cis t"
    by (simp add: cis_mult)
  then have p: "cis (2 * t) ^ n = 1"
    by (simp add: power_mult_distrib assms(2))
  show "(\<Sum>j<n. cis (2 * t) ^ j) = 0"
    by (rule geometric_root_sum [OF assms(1) p])
  have i: "cis (- (2 * t)) = inverse (cis (2 * t))"
    by (simp only: cis_inverse)
  have "cis (- (2 * t)) \<noteq> 1"
    using assms(1) by (simp only: i inverse_eq_1_iff not_False_eq_True)
  moreover have "cis (- (2 * t)) ^ n = 1"
    by (simp only: i power_inverse p inverse_1)
  ultimately show "(\<Sum>j<n. cis (- (2 * t)) ^ j) = 0"
    by (rule geometric_root_sum)
qed

lemma ago_sine_wave:
  assumes "j < T"
  shows "ago (map (\<lambda>m. sin (t * real m)) [0..<T]) j = sin (t * (real T - 1 - real j))"
proof -
  have "T - Suc j < T" using assms by simp
  moreover have "real (T - Suc j) = real T - 1 - real j"
    using assms by (simp add: of_nat_diff)
  ultimately show ?thesis
    using assms by (simp add: ago_def rev_nth algebra_simps)
qed

lemma sin_as_cis: "2 * \<i> * complex_of_real (sin a) = cis a - cis (- a)"
  by (simp add: complex_eq_iff)

lemma sine_sliding_sum:
  assumes "(\<Sum>j<n. cis (2 * t) ^ j) = 0" and "n \<le> T"
  shows "2 * \<i> * sliding_sum (cis t) n (map (\<lambda>m. sin (t * real m)) [0..<T]) =
    of_nat n * cis (t * real T)"
proof -
  let ?xs = "map (\<lambda>m. sin (t * real m)) [0..<T]"
  have "2 * \<i> * sliding_sum (cis t) n ?xs =
      (\<Sum>j<n. 2 * \<i> * complex_of_real (ago ?xs j) * cis t ^ Suc j)"
    by (simp add: sliding_sum_def sum_distrib_left mult.assoc)
  also have "\<dots> = (\<Sum>j<n. cis (t * real T) - cis (t * (2 - real T)) * cis (2 * t) ^ j)"
  proof (rule sum.cong [OF refl])
    fix j assume "j \<in> {..<n}"
    then have j: "j < T" using assms(2) by simp
    let ?a = "t * (real T - 1 - real j)"
    have "2 * \<i> * complex_of_real (ago ?xs j) * cis t ^ Suc j =
        (cis ?a - cis (- ?a)) * cis (real (Suc j) * t)"
      by (simp only: ago_sine_wave [OF j] sin_as_cis DeMoivre)
    also have "\<dots> = cis (?a + real (Suc j) * t) - cis (- ?a + real (Suc j) * t)"
      by (simp only: cis_mult left_diff_distrib)
    also have "?a + real (Suc j) * t = t * real T"
      by (simp add: algebra_simps)
    also have "- ?a + real (Suc j) * t = t * (2 - real T) + real j * (2 * t)"
      by (simp add: algebra_simps)
    also have "cis (t * (2 - real T) + real j * (2 * t)) =
        cis (t * (2 - real T)) * cis (2 * t) ^ j"
      by (simp only: cis_mult DeMoivre)
    finally show "2 * \<i> * complex_of_real (ago ?xs j) * cis t ^ Suc j =
        cis (t * real T) - cis (t * (2 - real T)) * cis (2 * t) ^ j" .
  qed
  also have "\<dots> = of_nat n * cis (t * real T) -
      cis (t * (2 - real T)) * (\<Sum>j<n. cis (2 * t) ^ j)"
    by (simp add: sum_subtractf sum_distrib_left)
  finally show ?thesis
    by (simp add: assms(1))
qed

lemma sine_magnitude:
  assumes "(\<Sum>j<n. cis (2 * t) ^ j) = 0" and "n \<le> T"
  shows "cmod (sliding_sum (cis t) n (map (\<lambda>m. sin (t * real m)) [0..<T])) = real n / 2"
proof -
  let ?S = "sliding_sum (cis t) n (map (\<lambda>m. sin (t * real m)) [0..<T])"
  have "cmod (2 * \<i> * ?S) = cmod (of_nat n * cis (t * real T))"
    by (simp only: sine_sliding_sum [OF assms])
  then have "2 * cmod ?S = real n"
    by (simp add: norm_mult)
  then show ?thesis by simp
qed

lemma sine_power:
  assumes "(\<Sum>j<n. cis (- (2 * t)) ^ j) = 0" and "n \<le> T"
  shows "window_power n (map (\<lambda>m. sin (t * real m)) [0..<T]) = real n / 2"
proof -
  let ?xs = "map (\<lambda>m. sin (t * real m)) [0..<T]"
  have "2 * window_power n ?xs =
      (\<Sum>j<n. 1 - Re (cis (2 * t * (real T - 1)) * cis (- (2 * t)) ^ j))"
    unfolding window_power_def sum_distrib_left
  proof (rule sum.cong [OF refl])
    fix j assume "j \<in> {..<n}"
    then have j: "j < T" using assms(2) by simp
    let ?a = "t * (real T - 1 - real j)"
    have "cis (2 * t * (real T - 1)) * cis (- (2 * t)) ^ j =
        cis (2 * t * (real T - 1) + real j * (- (2 * t)))"
      by (simp only: DeMoivre cis_mult)
    also have "2 * t * (real T - 1) + real j * (- (2 * t)) = 2 * ?a"
      by (simp add: algebra_simps)
    finally have "Re (cis (2 * t * (real T - 1)) * cis (- (2 * t)) ^ j) = cos (2 * ?a)"
      by simp
    moreover have "2 * (sin ?a * sin ?a) = 1 - cos (2 * ?a)"
      by (simp add: cos_double_sin power2_eq_square)
    ultimately show "2 * (ago ?xs j * ago ?xs j) =
        1 - Re (cis (2 * t * (real T - 1)) * cis (- (2 * t)) ^ j)"
      by (simp only: ago_sine_wave [OF j])
  qed
  also have "\<dots> = real n - (\<Sum>j<n. Re (cis (2 * t * (real T - 1)) * cis (- (2 * t)) ^ j))"
    by (simp add: sum_subtractf)
  also have "(\<Sum>j<n. Re (cis (2 * t * (real T - 1)) * cis (- (2 * t)) ^ j)) =
      Re (cis (2 * t * (real T - 1)) * (\<Sum>j<n. cis (- (2 * t)) ^ j))"
    by (simp only: Re_sum sum_distrib_left)
  finally show ?thesis
    by (simp add: assms(1))
qed

lemma level_sine:
  assumes "0 < n" and "sdft_N st = n" and "magnitude (dft st) = real n / 2"
    and "totalPower st = real n / 2"
  shows "level st = Fin (real n / sqrt 2)"
proof -
  have h: "sqrt (1 / 2) \<noteq> 0" by simp
  have "level st = js_div (Fin (real n / 2)) (js_sqrt (js_div (Fin (real n / 2)) (Fin (real n))))"
    by (simp only: level_def assms)
  also have "js_div (Fin (real n / 2)) (Fin (real n)) = Fin (1 / 2)"
    using assms(1) by simp
  also have "js_sqrt (Fin (1 / 2)) = Fin (sqrt (1 / 2))"
    by simp
  also have "js_div (Fin (real n / 2)) (Fin (sqrt (1 / 2))) = Fin (real n / 2 / sqrt (1 / 2))"
    using h by (simp only: js_div.simps if_False)
  also have "real n / 2 / sqrt (1 / 2) = real n / sqrt 2"
    by (simp add: real_sqrt_divide field_simps)
  finally show ?thesis .
qed

lemma sine_as_wave:
  "sine sr T = map (\<lambda>m. sin (2 * pi * (440 / real sr) * real m)) [0..<T]"
  by (simp add: sine_def)

lemma sine_window:
  assumes "880 < n" and "n \<le> T"
  shows "cmod (sliding_sum (cis (2 * pi * (440 / real n))) n (sine n T)) = real n / 2"
    and "window_power n (sine n T) = real n / 2"
proof -
  define t where "t = 2 * pi * (440 / real n)"
  have pos: "0 < n" using assms(1) by simp
  have w: "sine n T = map (\<lambda>m. sin (t * real m)) [0..<T]"
    unfolding t_def by (rule sine_as_wave)
  have "t * real n = 440 * (2 * pi)"
    using pos by (simp add: t_def)
  then have ne: "cis (2 * t) \<noteq> 1"
    by (rule double_rotation_neq_1 [OF assms(1)])
  have one: "cis t ^ n = 1"
    unfolding t_def by (rule coeff_power [OF pos])
  note z = rotation_sums [OF ne one]
  show "cmod (sliding_sum (cis (2 * pi * (440 / real n))) n (sine n T)) = real n / 2"
    using sine_magnitude [OF z(1) assms(2)] by (simp only: w t_def)
  show "window_power n (sine n T) = real n / 2"
    using sine_power [OF z(2) assms(2)] by (simp only: w)
qed

lemma feed_sine:
  assumes "880 < sr" and "sr < 2 ^ 16" and "sr \<le> T"
  shows "\<exists>st. feed Fin sr (sine sr T) = Inr st \<and> level st = Fin (real sr / sqrt 2)"
proof -
  have pos: "0 < sr" using assms(1) by simp
  from feed_exact [of sr "sine sr T"] obtain st where
    f: "feed Fin sr (sine sr T) = Inr st" and inv: "engine_inv sr (sine sr T) st"
    by blast
  have d: "dft st = sliding_sum (cis (2 * pi * (440 / real sr))) sr (sine sr T)"
    by (rule engine_dft_window [OF inv pos assms(2)])
  have n: "sdft_N st = sr" and "totalPower st = window_power (sr mod 2 ^ 16) (sine sr T)"
    using inv by (simp_all add: engine_inv_def)
  then have p: "totalPower st = real sr / 2"
    using assms(2) by (simp add: sine_window(2) [OF assms(1,3)])
  have m: "magnitude (dft st) = real sr / 2"
    by (simp only: magnitude_eq d sine_window(1) [OF assms(1,3)])
  from f level_sine [OF pos n m p] show ?thesis by simp
qed

section \<open>The recurrence and the batch transform\<close>

lemma ago_impulse: "ago (1 # replicate n 0) j = (if j = n then 1 else 0)"
  by (simp add: ago_def nth_append)

lemma unrolled_impulse:
  assumes "w \<le> n"
  shows "unrolled c w (1 # replicate n 0) = c ^ Suc n - c ^ Suc (n - w)"
proof -
  have "unrolled c w (1 # replicate n 0) =
      (\<Sum>j<Suc n. (if j = n then c ^ Suc j else 0) - (if j = n - w then c ^ Suc j else 0))"
    unfolding unrolled_def using assms
    by (intro sum.cong) (auto simp add: ago_impulse)
  also have "\<dots> = (\<Sum>j<Suc n. if j = n then c ^ Suc j else 0) -
      (\<Sum>j<Suc n. if j = n - w then c ^ Suc j else 0)"
    by (rule sum_subtractf)
  finally have "unrolled c w (1 # replicate n 0) =
      (if n \<in> {..<Suc n} then c ^ Suc n else 0) -
      (if n - w \<in> {..<Suc n} then c ^ Suc (n - w) else 0)"
    by (simp only: sum.delta finite_lessThan)
  moreover have "n - w < Suc n" by simp
  ultimately show ?thesis by simp
qed

lemma dft_coefficient_impulse: "dft_coefficient k (1 # replicate n 0) = 1"
proof -
  have "dft_coefficient k (1 # replicate n 0) =
      (\<Sum>j<Suc n. complex_of_real ((1 # replicate n 0) ! j) *
         cis (- (2 * pi * k * real j / real (Suc n))))"
    by (simp add: dft_coefficient_def)
  then show ?thesis
    unfolding sum.lessThan_Suc_shift by simp
qed

text \<open>
  Claim C2, as amended. For an engine whose window length \<open>N\<close> (the sample rate) is
  positive and below the capacity \<open>2 ^ 16\<close> of its history buffer, fed any stream of at
  least \<open>N\<close> samples from its initial state, in exact arithmetic: every pass of the
  loop returns, and the accumulated value \<open>S\<close> is the coefficient number \<open>k = 440\<close> of
  the discrete Fourier transform of the most recent \<open>N\<close> samples, recomputed from
  scratch. (The rotation left over is \<open>coeff ^ N = 1\<close>.)
\<close>

theorem sliding_dft_equals_batch_dft:
  assumes "0 < sr" and "sr < 2 ^ 16" and "sr \<le> length xs"
  shows "\<exists>st. feed Fin sr xs = Inr st \<and> sdft_k st = 440 \<and> sdft_N st = sr \<and>
    dft st = dft_coefficient 440 (window sr xs)"
proof -
  from feed_exact [of sr xs] obtain st where
    f: "feed Fin sr xs = Inr st" and inv: "engine_inv sr xs st"
    by blast
  have "sdft_k st = 440" "sdft_N st = sr"
    using inv by (simp_all add: engine_inv_def)
  then show ?thesis
    using f engine_dft_window [OF inv assms(1,2)] sliding_sum_batch [OF assms(1,3)] by simp
qed

text \<open>
  The theorem on a second and a half of the sine wave at 48000 samples per second: 24000
  samples have left the window, and the coefficient has modulus 24000.
\<close>

theorem sliding_dft_equals_batch_dft_witness:
  "\<exists>st. feed Fin 48000 (sine 48000 72000) = Inr st \<and> sdft_k st = 440 \<and> sdft_N st = 48000 \<and>
    dft st = dft_coefficient 440 (window 48000 (sine 48000 72000)) \<and>
    cmod (dft st) = 24000"
proof -
  have "cmod (dft_coefficient 440 (window 48000 (sine 48000 72000))) = 24000"
    using sine_window(1) [of 48000 72000] sliding_sum_batch [of 48000 "sine 48000 72000"]
    by (simp add: sine_def)
  with sliding_dft_equals_batch_dft [of 48000 "sine 48000 72000"] show ?thesis
    by (auto simp add: sine_def)
qed

text \<open>
  Claim C2 as stated fails at the sample rate 96000, where the window is longer than the
  buffer. The stream is one sample of value 1 followed by 95999 zeros: the coefficient
  of the window is 1, and \<open>S\<close> is \<open>1 - coeff ^ 65536\<close>, because the sample was taken out
  30464 samples after it came in.
\<close>

theorem sliding_dft_counterexample:
  "map_sum id dft (feed Fin 96000 (1 # replicate 95999 0)) =
     Inr (1 - cis (2 * pi * (440 / 96000)) ^ 65536) \<and>
   dft_coefficient 440 (window 96000 (1 # replicate 95999 0)) = 1 \<and>
   1 - cis (2 * pi * (440 / 96000)) ^ 65536 \<noteq> (1 :: complex)"
proof -
  let ?c = "cis (2 * pi * (440 / 96000))"
  from feed_exact [of 96000 "1 # replicate 95999 0"] obtain st where
    f: "feed Fin 96000 (1 # replicate 95999 0) = Inr st"
    and inv: "engine_inv 96000 (1 # replicate 95999 0) st"
    by blast
  have "dft st = unrolled ?c 30464 (1 # replicate 95999 0)"
    using inv by (simp add: engine_inv_def)
  also have "\<dots> = ?c ^ 96000 - ?c ^ 65536"
    using unrolled_impulse [of 30464 95999 ?c] by simp
  also have "?c ^ 96000 = 1"
    using coeff_power [of 96000] by simp
  finally have d: "dft st = 1 - ?c ^ 65536" .
  have w: "dft_coefficient 440 (window 96000 (1 # replicate 95999 0)) = 1"
    by (simp add: window_def dft_coefficient_impulse)
  have "?c ^ 65536 \<noteq> 0"
    by (simp add: cis_neq_zero)
  then have "1 - ?c ^ 65536 \<noteq> 1" by simp
  with d w f show ?thesis by simp
qed

text \<open>
  Claim C4, as amended. From the initial state, after every pass of the loop over any
  stream, in exact arithmetic, the running power \<open>P\<close> is the sum of the squares of the
  most recent \<open>N mod 2 ^ 16\<close> samples, and so is not negative; when \<open>N\<close> is below the
  capacity \<open>2 ^ 16\<close> of the history buffer these are the samples inside the window.
\<close>

theorem totalPower_is_window_power:
  "\<exists>st. feed Fin sr xs = Inr st \<and> sdft_N st = sr \<and> 0 \<le> totalPower st \<and>
     totalPower st = (\<Sum>x\<leftarrow>window (sr mod 2 ^ 16) xs. x * x) \<and>
     (sr < 2 ^ 16 \<longrightarrow> totalPower st = (\<Sum>x\<leftarrow>window sr xs. x * x))"
proof -
  from feed_exact [of sr xs] obtain st where
    f: "feed Fin sr xs = Inr st" and inv: "engine_inv sr xs st"
    by blast
  have n: "sdft_N st = sr" and "totalPower st = window_power (sr mod 2 ^ 16) xs"
    using inv by (simp_all add: engine_inv_def)
  then have p: "totalPower st = (\<Sum>x\<leftarrow>window (sr mod 2 ^ 16) xs. x * x)"
    by (simp add: window_power_sum_list)
  have "0 \<le> (\<Sum>x\<leftarrow>window (sr mod 2 ^ 16) xs. x * x)"
    by (rule sum_list_nonneg) auto
  then show ?thesis using f p n by auto
qed

theorem totalPower_is_window_power_witness:
  "\<exists>st. feed Fin 48000 (replicate 10 1 @ replicate 48000 (1 / 2)) = Inr st \<and>
     sdft_N st = 48000 \<and> 0 \<le> totalPower st \<and> totalPower st = 12000"
  using totalPower_is_window_power [of 48000 "replicate 10 1 @ replicate 48000 (1 / 2)"]
  by (auto simp add: window_def sum_list_replicate)

text \<open>
  Claim C4 as stated fails at the sample rate 96000: after 50000 samples of value
  \<open>1 / 2\<close> the window holds them all and the sum of their squares is 12500, but \<open>P\<close> is
  7616, the sum over the most recent 30464.
\<close>

theorem totalPower_counterexample:
  "map_sum id totalPower (feed Fin 96000 (replicate 50000 (1 / 2))) = Inr 7616 \<and>
   (\<Sum>x\<leftarrow>window 96000 (replicate 50000 (1 / 2)). x * x) = (12500 :: real)"
proof -
  from feed_exact [of 96000 "replicate 50000 (1 / 2)"] obtain st where
    f: "feed Fin 96000 (replicate 50000 (1 / 2)) = Inr st"
    and inv: "engine_inv 96000 (replicate 50000 (1 / 2)) st"
    by blast
  have "totalPower st = window_power (96000 mod 2 ^ 16) (replicate 50000 (1 / 2))"
    using inv by (simp add: engine_inv_def)
  also have "\<dots> = 7616"
    by (simp add: window_power_sum_list window_def sum_list_replicate)
  finally show ?thesis
    by (simp add: f window_def sum_list_replicate)
qed

lemma engine_read_aliased:
  "RingBuffer_read
     (foldl (call store) \<lparr>mask_rb = 65535, buffer = replicate 65536 (Fin 0), index = 0\<rparr> cs)
     (int sr) = Some (stored (map store (written cs)) (sr mod 2 ^ 16))"
  using rb_inv_read [OF rb_inv_calls [OF RingBuffer_new_16], of store cs "int sr"]
  by (simp add: nat_mod_distrib)

text \<open>
  Claim C7, as amended. The constructor checks nothing and never fails: for every sample
  rate it returns an engine with \<open>N\<close> the sample rate and a history buffer of
  \<open>2 ^ 16\<close> slots. Whatever has been written, the engine's \<open>read N\<close> then returns the
  element stored \<open>N mod 2 ^ 16\<close> writes back; that is the one \<open>N\<close> writes back only when
  \<open>N\<close> is below the capacity.
\<close>

theorem construction_never_rejects:
  "\<exists>st. SlidingDFT_new sr = Inr st \<and> sdft_N st = sr \<and>
     length (buffer (ringBuffer st)) = 2 ^ 16 \<and>
     (\<forall>cs. RingBuffer_read (foldl (call fround) (ringBuffer st) cs) (int (sdft_N st)) =
        Some (stored (map fround (written cs)) (sr mod 2 ^ 16)))"
  using engine_read_aliased [of fround _ sr] by (simp add: SlidingDFT_new_eq)

text \<open>
  Claim C7 as stated fails at the sample rate 96000: the engine is constructed, with a
  window of 96000 samples on a buffer of 65536 slots. After 40000 samples of value 1
  its window power is 30464, not 40000: the sample subtracted is the one 30464 steps
  back.
\<close>

theorem construction_counterexample:
  "map_sum id sdft_N (SlidingDFT_new 96000) = Inr 96000 \<and>
   map_sum id (length \<circ> buffer \<circ> ringBuffer) (SlidingDFT_new 96000) = Inr 65536 \<and>
   map_sum id totalPower (feed fround 96000 (replicate 40000 1)) = Inr 30464"
proof -
  have "\<forall>x \<in> set (replicate 40000 (1::real)). fround x = Fin x"
    by (simp add: fround_1)
  from feed_after [OF this, of 96000] obtain st where
    f: "feed fround 96000 (replicate 40000 1) = Inr st"
    and inv: "engine_inv 96000 (replicate 40000 1) st"
    by blast
  have "totalPower st = window_power (96000 mod 2 ^ 16) (replicate 40000 1)"
    using inv by (simp add: engine_inv_def)
  also have "\<dots> = 30464"
    by (simp add: window_power_sum_list window_def sum_list_replicate)
  finally show ?thesis
    by (simp add: f SlidingDFT_new_eq)
qed

section \<open>Whole calls of process\<close>

lemma mix_channel_prefix:
  assumes "\<forall>i<m. i < length s \<longrightarrow> store (s ! i + channel ! i) = Fin (s ! i + channel ! i)"
  shows "fold (mix_sample store channel) [0..<m] (Inr (s, c)) =
    Inr (map (\<lambda>i. s ! i + (if i < m then channel ! i else 0)) [0..<length s], c + m)"
  using assms
proof (induction m)
  case 0
  then show ?case by (simp add: map_nth)
next
  case (Suc m)
  let ?s' = "map (\<lambda>i. s ! i + (if i < m then channel ! i else 0)) [0..<length s]"
  let ?t = "map (\<lambda>i. s ! i + (if i < Suc m then channel ! i else 0)) [0..<length s]"
  have ih: "fold (mix_sample store channel) [0..<m] (Inr (s, c)) = Inr (?s', c + m)"
    using Suc by simp
  have "fold (mix_sample store channel) [0..<Suc m] (Inr (s, c)) =
      mix_sample store channel m (fold (mix_sample store channel) [0..<m] (Inr (s, c)))"
    by simp
  also have "\<dots> = mix_sample store channel m (Inr (?s', c + m))"
    by (simp only: ih)
  also have "\<dots> = Inr (?t, c + Suc m)"
  proof (cases "m < length s")
    case True
    then have "store (?s' ! m + channel ! m) = Fin (?s' ! m + channel ! m)"
      using Suc.prems by simp
    moreover have "?s'[m := ?s' ! m + channel ! m] = ?t"
      by (rule nth_equalityI) (auto simp add: nth_list_update less_Suc_eq)
    ultimately show ?thesis
      using True by (simp add: mix_sample_def)
  next
    case False
    then have "?s' = ?t"
      by (intro nth_equalityI) auto
    then show ?thesis
      using False by (simp add: mix_sample_def)
  qed
  finally show ?case .
qed

lemma mixdown_single:
  assumes "\<forall>x \<in> set (take w channel). store x = Fin x"
  shows "mixdown store w [[channel]] =
    Inr (take w channel @ replicate (w - length channel) 0, length channel)"
proof -
  have ex: "\<forall>i<length channel. i < length (replicate w (0::real)) \<longrightarrow>
      store (replicate w 0 ! i + channel ! i) = Fin (replicate w 0 ! i + channel ! i)"
  proof (intro allI impI)
    fix i assume i: "i < length channel" "i < length (replicate w (0::real))"
    then have "channel ! i \<in> set (take w channel)"
      by (metis length_replicate length_take min_less_iff_conj nth_mem nth_take)
    with assms i show "store (replicate w 0 ! i + channel ! i) =
        Fin (replicate w 0 ! i + channel ! i)"
      by simp
  qed
  have "map (\<lambda>i. replicate w (0::real) ! i + (if i < length channel then channel ! i else 0))
        [0..<w] =
      take w channel @ replicate (w - length channel) 0"
    by (rule nth_equalityI) (auto simp add: nth_append)
  then show ?thesis
    using mix_channel_prefix [OF ex, of 0] by (simp add: mixdown_def mix_channel_def)
qed

lemma fed_block_single:
  assumes "channel \<noteq> []" and "store 0 = Fin 0"
    and "\<forall>x \<in> set (take 128 channel). store x = Fin x \<and>
       store (x / (real (length channel) / 128)) = Fin (x / (real (length channel) / 128))"
  shows "fed_block store [[channel]] =
    Some (map (\<lambda>s. s / (real (length channel) / 128))
       (take 128 channel @ replicate (128 - length channel) 0))"
proof -
  have m: "mixdown store 128 [[channel]] =
      Inr (take 128 channel @ replicate (128 - length channel) 0, length channel)"
    using assms(3) by (intro mixdown_single) simp
  show ?thesis
    using assms by (auto simp add: fed_block_def m list_all_iff)
qed

lemma engine_inv_publish:
  assumes "engine_inv sr xs st"
  shows "engine_inv sr xs (fst (publish w st))" and "snd (snd (publish w st)) = True"
  using assms by (simp_all add: publish_def engine_inv_def Let_def)

lemma process_eq:
  assumes "fed_block store input = Some b"
  shows "SlidingDFT_process store st input =
    (case process_loop store st b of
       Inl e \<Rightarrow> Inl e
     | Inr st' \<Rightarrow> Inr (publish 128 st'))"
    and "\<forall>x \<in> set b. store x = Fin x"
  using assms
  by (auto simp add: fed_block_def SlidingDFT_process_def Let_def list_all_iff
      split: sum.splits prod.splits if_splits)

lemma process_inv:
  assumes "engine_inv sr xs st" and "fed_block store input = Some b"
  shows "\<exists>st' msg. SlidingDFT_process store st input = Inr (st', msg, True) \<and>
    engine_inv sr (xs @ b) st'"
proof -
  note p = process_eq [OF assms(2)]
  from process_loop_inv [where store = store and ys = b, OF assms(1) p(2)] obtain st1 where
    pl: "process_loop store st b = Inr st1" and inv1: "engine_inv sr (xs @ b) st1"
    by blast
  obtain st' msg r where q: "publish 128 st1 = (st', msg, r)"
    by (cases "publish 128 st1")
  show ?thesis
    using engine_inv_publish [OF inv1, of 128] by (simp add: p(1) pl q)
qed

lemma process_all_inv:
  assumes "engine_inv sr xs st" and "map (fed_block store) inputs = map Some bs"
  shows "\<exists>st' msgs. process_all store st inputs = Inr (st', msgs) \<and>
    engine_inv sr (xs @ concat bs) st'"
  using assms
proof (induction inputs arbitrary: xs st bs)
  case Nil
  then show ?case by simp
next
  case (Cons input inputs)
  from Cons.prems(2) obtain b bs' where bs: "bs = b # bs'"
    and b: "fed_block store input = Some b"
    and rest: "map (fed_block store) inputs = map Some bs'"
    by (cases bs) auto
  from process_inv [OF Cons.prems(1) b] obtain st1 msg where
    p: "SlidingDFT_process store st input = Inr (st1, msg, True)"
    and inv1: "engine_inv sr (xs @ b) st1"
    by blast
  from Cons.IH [OF inv1 rest] obtain st2 msgs where
    pa: "process_all store st1 inputs = Inr (st2, msgs)"
    and inv2: "engine_inv sr ((xs @ b) @ concat bs') st2"
    by blast
  show ?case
    using p pa inv2 by (simp add: bs)
qed

lemma run_inv:
  assumes "map (fed_block store) inputs = map Some bs"
  shows "\<exists>st msgs. run store sr inputs = Inr (st, msgs) \<and> engine_inv sr (concat bs) st"
proof -
  obtain st0 where n: "SlidingDFT_new sr = Inr st0"
    by (simp add: SlidingDFT_new_eq)
  from process_all_inv [OF engine_inv_new [OF n] assms]
  show ?thesis by (simp add: run_def n)
qed

lemma run_state:
  assumes "map (fed_block store) inputs = map Some bs"
  shows "map_sum id (index \<circ> ringBuffer \<circ> fst) (run store sr inputs) =
      Inr (int (length (concat bs)))"
    and "map_sum id (totalPower \<circ> fst) (run store sr inputs) =
      Inr (window_power (sr mod 2 ^ 16) (concat bs))"
proof -
  from run_inv [OF assms, of sr] obtain st msgs where
    r: "run store sr inputs = Inr (st, msgs)"
    and inv: "engine_inv sr (concat bs) st"
    by blast
  show "map_sum id (index \<circ> ringBuffer \<circ> fst) (run store sr inputs) =
      Inr (int (length (concat bs)))"
    using inv by (simp add: r engine_inv_def rb_inv_def)
  show "map_sum id (totalPower \<circ> fst) (run store sr inputs) =
      Inr (window_power (sr mod 2 ^ 16) (concat bs))"
    using inv by (simp add: r engine_inv_def)
qed

lemma run_blocks:
  assumes "\<forall>b \<in> set blocks. length b = 128 \<and> (\<forall>x \<in> set b. store x = Fin x)"
    and "store 0 = Fin 0"
  shows "\<exists>st msgs. run store sr (map (\<lambda>b. [[b]]) blocks) = Inr (st, msgs) \<and>
    engine_inv sr (concat blocks) st"
proof -
  have "fed_block store [[b]] = Some b" if "b \<in> set blocks" for b
  proof -
    from that assms(1) have l: "length b = 128" and e: "\<forall>x \<in> set b. store x = Fin x"
      by simp_all
    from l have "b \<noteq> []" by auto
    from fed_block_single [where store = store and channel = b, OF this assms(2)] l e
    show ?thesis by simp
  qed
  then have "map (fed_block store) (map (\<lambda>b. [[b]]) blocks) = map Some blocks"
    by simp
  from run_inv [OF this, of sr] show ?thesis .
qed

section \<open>Silence\<close>

lemma level_silent:
  assumes "dft st = 0" and "totalPower st = 0" shows "level st = NaN"
  using assms by (simp add: level_def magnitude_eq)

lemma ago_silence: "ago (replicate n 0) j = 0"
  by (simp add: ago_def)

lemma feed_silence:
  "\<exists>st. feed fround sr (replicate n 0) = Inr st \<and> dft st = 0 \<and> totalPower st = 0 \<and>
     nextUpdateFrame st = 1000 / 30 \<and> updateIntervalInMS st = 1000 / 30"
proof -
  have "\<forall>x \<in> set (replicate n (0::real)). fround x = Fin x"
    by (simp add: fround_0)
  from feed_after [OF this, of sr] obtain st where
    f: "feed fround sr (replicate n 0) = Inr st" and inv: "engine_inv sr (replicate n 0) st"
    and fr: "nextUpdateFrame st = 1000 / 30" "updateIntervalInMS st = 1000 / 30"
    by blast
  have "dft st = 0" "totalPower st = 0"
    using inv by (simp_all add: engine_inv_def unrolled_def window_power_def ago_silence)
  with f fr show ?thesis by simp
qed

text \<open>
  Claim C1, as amended. An engine that has been fed nothing but zero samples since it
  was constructed, whatever its sample rate and however many samples, has \<open>S\<close> and \<open>P\<close>
  exactly zero, and its level \<open>|S| / sqrt (P / N)\<close> is \<open>0 / 0\<close>, that is \<open>NaN\<close>, not
  \<open>0.0\<close>: the denominator is not clamped.
\<close>

theorem silence_level:
  "\<exists>st. feed fround sr (replicate n 0) = Inr st \<and> dft st = 0 \<and> totalPower st = 0 \<and>
     level st = NaN"
  using feed_silence [of sr n] by (auto simp add: level_silent)

text \<open>
  Claim C1 as stated fails on the first block of silence: the engine at 48000 samples per
  second, given one channel of 128 zero samples, posts the level \<open>NaN\<close>.
\<close>

theorem silence_counterexample:
  "map_sum id snd (run fround 48000 [[[replicate 128 0]]]) = Inr [Some NaN]"
proof -
  obtain st0 where n: "SlidingDFT_new 48000 = Inr st0"
    by (simp add: SlidingDFT_new_eq)
  from feed_silence [of 48000 128] obtain st where
    f: "feed fround 48000 (replicate 128 0) = Inr st" and s: "dft st = 0" "totalPower st = 0"
    and fr: "nextUpdateFrame st = 1000 / 30" "updateIntervalInMS st = 1000 / 30"
    by blast
  have pl: "process_loop fround st0 (replicate 128 0) = Inr st"
    using f by (simp add: feed_def n)
  have "fed_block fround [[replicate 128 0]] = Some (replicate 128 0)"
    using fed_block_single [of "replicate 128 0" fround] by (simp add: fround_0)
  note p = process_eq(1) [OF this]
  have "publish 128 st =
      (st\<lparr>nextUpdateFrame := 1000 / 30 - 128 + intervalInFrames st\<rparr>, Some NaN, True)"
    using fr by (simp add: publish_def level_silent [OF s] intervalInFrames_def)
  then show ?thesis
    by (simp add: run_def n p pl)
qed

section \<open>Block lengths\<close>

text \<open>
  Claim C5 at its own example, on the engine at 48000 samples per second and a channel
  of ones. One call with 256 samples runs the loop 128 times, over the first 128
  samples halved (\<open>n = 256 / 128\<close>): the cursor ends at 128 and the window power at 32.
  Two calls with 128 samples each run it 256 times: cursor 256, window power 256.
\<close>

theorem one_call_of_256_is_not_two_of_128:
  "map_sum id (index \<circ> ringBuffer \<circ> fst) (run fround 48000 [[[replicate 256 1]]]) = Inr 128 \<and>
   map_sum id (totalPower \<circ> fst) (run fround 48000 [[[replicate 256 1]]]) = Inr 32 \<and>
   map_sum id (index \<circ> ringBuffer \<circ> fst)
     (run fround 48000 [[[replicate 128 1]], [[replicate 128 1]]]) = Inr 256 \<and>
   map_sum id (totalPower \<circ> fst)
     (run fround 48000 [[[replicate 128 1]], [[replicate 128 1]]]) = Inr 256"
proof -
  have b1: "fed_block fround [[replicate 256 1]] = Some (replicate 128 (1 / 2))"
    using fed_block_single [of "replicate 256 1" fround]
    by (simp add: fround_0 fround_1 fround_half)
  have b2: "fed_block fround [[replicate 128 1]] = Some (replicate 128 1)"
    using fed_block_single [of "replicate 128 1" fround]
    by (simp add: fround_0 fround_1)
  have c1: "map (fed_block fround) [[[replicate 256 1]]] = map Some [replicate 128 (1 / 2)]"
    by (simp add: b1)
  have c2: "map (fed_block fround) [[[replicate 128 1]], [[replicate 128 1]]] =
      map Some [replicate 128 1, replicate 128 1]"
    by (simp add: b2)
  have p1: "window_power (48000 mod 2 ^ 16) (concat [replicate 128 (1 / 2)]) = 32"
    by (simp add: window_power_sum_list window_def sum_list_replicate)
  have p2: "window_power (48000 mod 2 ^ 16) (concat [replicate 128 1, replicate 128 1]) = 256"
    by (simp add: window_power_sum_list window_def sum_list_replicate)
  show ?thesis
    using run_state [OF c1, of 48000] run_state [OF c2, of 48000]
    by (simp only: p1 p2) simp
qed

text \<open>
  Claim C8 at a block of 64 samples (one channel of ones, engine at 48000 samples per
  second): the call runs the loop 128 times, not 64, over the 64 samples doubled
  (\<open>n = 64 / 128\<close>) and 64 zeros: the cursor ends at 128 and the window power at 256.
\<close>

theorem block_of_64_runs_128_updates:
  "map_sum id (index \<circ> ringBuffer \<circ> fst) (run fround 48000 [[[replicate 64 1]]]) = Inr 128 \<and>
   map_sum id (totalPower \<circ> fst) (run fround 48000 [[[replicate 64 1]]]) = Inr 256"
proof -
  have b: "fed_block fround [[replicate 64 1]] = Some (replicate 64 2 @ replicate 64 0)"
    using fed_block_single [of "replicate 64 1" fround]
    by (simp add: fround_0 fround_1 fround_2)
  have c: "map (fed_block fround) [[[replicate 64 1]]] = map Some [replicate 64 2 @ replicate 64 0]"
    by (simp add: b)
  have p: "window_power (48000 mod 2 ^ 16) (concat [replicate 64 2 @ replicate 64 0]) = 256"
    by (simp add: window_power_sum_list window_def sum_list_replicate)
  show ?thesis
    using run_state [OF c, of 48000] by (simp only: p) simp
qed

text \<open>
  Claim C10. When the first input has no channel, \<open>process\<close> of the wrapper returns
  \<^verbatim>\<open>true\<close> with the node as it was (the array of samples, the frame counter and the
  whole state of the filter bank) and posts nothing.
\<close>

theorem no_input_channels:
  "PianolizerNode_process store bank_process currentTime this ([] # ports) smooth =
     Inr (this, None, True)"
  by (simp add: PianolizerNode_process_def)

section \<open>The level on the sine wave\<close>

text \<open>
  Claim C6, as amended. The engine has one bin, number \<open>k = 440\<close> of a window of
  \<open>N = sampleRate\<close> samples (one second), so it is tuned to 440 Hz. Fed a sine wave of
  440 Hz and amplitude 1 for at least \<open>N\<close> samples, its level \<open>|S| / sqrt (P / N)\<close> is
  \<open>N / sqrt 2\<close> once the window has filled, and stays there for every longer stream
  (exact arithmetic; the sample rate is above 880 and below the capacity \<open>2 ^ 16\<close>).
  Here \<open>|S| = N / 2\<close> and \<open>P = N / 2\<close>.
\<close>

theorem sine_level:
  assumes "880 < sr" and "sr < 2 ^ 16" and "sr \<le> T"
  shows "\<exists>st. feed Fin sr (sine sr T) = Inr st \<and> level st = Fin (real sr / sqrt 2)"
  using assms by (rule feed_sine)

theorem sine_level_witness:
  "\<exists>st. feed Fin 48000 (sine 48000 96000) = Inr st \<and> level st = Fin (48000 / sqrt 2)"
  using sine_level [of 48000 96000] by simp

text \<open>
  Claim C6 as stated fails at 48000 samples per second: after one second of the sine
  wave the level is \<open>48000 / sqrt 2\<close>, about 33941, which is not within 0.05 of 1.
\<close>

theorem sine_level_counterexample:
  "map_sum id level (feed Fin 48000 (sine 48000 48000)) = Inr (Fin (48000 / sqrt 2)) \<and>
   1 + 0.05 < 48000 / sqrt 2"
proof -
  from feed_sine [of 48000 48000] obtain st where
    "feed Fin 48000 (sine 48000 48000) = Inr st" "level st = Fin (48000 / sqrt 2)"
    by auto
  moreover have "1 + 0.05 < 48000 / sqrt 2"
    using sqrt2_less_2 by (simp add: field_simps)
  ultimately show ?thesis by simp
qed

end
